theory Spec2Isabelle
  imports Complex_Main "HOL-Library.Log_Nat"
begin

section \<open>The virtual device service (internal/device/virtual/service.go)\<close>

text \<open>
  The service keeps two Go maps, \<open>virtualDevices :: map[string]*VirtualDevice\<close> and
  \<open>stopChannels :: map[string]chan bool\<close>. The first one stores pointers, and the
  goroutine started for a device keeps the pointer it was given, so the structs live in
  an explicit heap. Channels are numbered, and a channel is either open or closed
  (nothing is ever sent on a stop channel, it is only closed).
\<close>

subsection \<open>Data\<close>

text \<open>\<open>time.Time\<close>: nanoseconds since the zero time; the zero value is \<open>0\<close>.\<close>
type_synonym Time = int

type_synonym ptr = nat
type_synonym chan = nat

text \<open>
  \<open>Id\<close> is written \<open>Id'\<close>, since \<open>Id\<close> is the identity relation of HOL. A Go string
  field that is absent from a decoded JSON body holds \<open>''''\<close>, an absent map holds no
  key, an absent time is \<open>0\<close> and an absent bool is \<open>False\<close>.
\<close>
record VirtualDevice =
  Id' :: string
  Name :: string
  Description :: string
  ProfileName :: string
  ServiceName :: string
  AdminState :: string
  OperatingState :: string
  Protocols :: "string \<rightharpoonup> string"
  LastReading :: Time
  IsRunning :: bool

definition zeroDevice :: VirtualDevice where
  "zeroDevice = \<lparr>Id' = [], Name = [], Description = [], ProfileName = [],
     ServiceName = [], AdminState = [], OperatingState = [], Protocols = Map.empty,
     LastReading = 0, IsRunning = False\<rparr>"

text \<open>
  \<open>models.Reading\<close> with its \<open>SimpleReading\<close> (\<open>Value\<close>, \<open>Units\<close>) inlined. The
  binary and object parts and the tags stay empty in every reading built here.
\<close>
record Reading =
  ReadingId :: string
  Origin :: int
  DeviceName :: string
  ResourceName :: string
  ReadingProfileName :: string
  ValueType :: string
  Value :: string
  Units :: string
  Created :: int
  Modified :: int

text \<open>
  A goroutine running \<open>generateDeviceData(device)\<close>: at the head of its \<open>for\<close> loop,
  in the \<open>select\<close> with the stop channel it read from the map when it entered
  (\<open>None\<close> is Go's nil channel, which is never ready), past the case
  \<open><-ticker.C\<close> and about to call \<open>publishSensorReading\<close>, or returned.
\<close>
datatype pc = LoopHead | Select "chan option" | Publishing | Returned

record goroutine =
  device :: ptr
  loc :: pc

record system =
  virtualDevices :: "string \<rightharpoonup> ptr"
  stopChannels :: "string \<rightharpoonup> chan"
  heap :: "ptr \<Rightarrow> VirtualDevice"
  nextPtr :: ptr
  nextChan :: chan
  closedChans :: "chan set"
  goroutines :: "goroutine list"
  published :: "Reading list"

text \<open>What a handler did: the status and body it wrote, or a Go panic.\<close>
datatype body =
    ErrorText string
  | CreatedId string
  | DeviceBody VirtualDevice
  | Message string

datatype outcome = Response nat body | Panic string

abbreviation StatusOK :: nat where "StatusOK \<equiv> 200"
abbreviation StatusCreated :: nat where "StatusCreated \<equiv> 201"
abbreviation StatusBadRequest :: nat where "StatusBadRequest \<equiv> 400"
abbreviation StatusNotFound :: nat where "StatusNotFound \<equiv> 404"

definition DeviceVirtualServiceKey :: string where
  "DeviceVirtualServiceKey = ''device-virtual''"
definition Unlocked :: string where "Unlocked = ''UNLOCKED''"
definition Up :: string where "Up = ''UP''"
definition ValueTypeFloat64 :: string where "ValueTypeFloat64 = ''Float64''"

subsection \<open>float64 arithmetic and \<open>%.2f\<close>\<close>

text \<open>
  A float64 is modelled by the rational it denotes. \<open>float64 x\<close> rounds a rational to
  the nearest float64, ties to even: 53 significant bits, with the fixed spacing
  \<open>2^-1074\<close> below \<open>2^-1022\<close>. Overflow to infinity is not modelled (nothing here
  comes near \<open>2^1024\<close>). Each operation rounds on its own, as the compiler for amd64
  does; Go also allows \<open>x*y + z\<close> to be fused into one rounding.
\<close>

definition round_half_even :: "rat \<Rightarrow> int" where
  "round_half_even x =
     (let f = \<lfloor>x\<rfloor>; d = x - of_int f
      in if d < 1 / 2 then f
         else if 1 / 2 < d then f + 1
         else if even f then f else f + 1)"

text \<open>\<open>ilog2 x\<close> is the \<open>e\<close> with \<open>2^e \<le> x < 2^(e+1)\<close>, for \<open>x > 0\<close>.\<close>
definition ilog2 :: "rat \<Rightarrow> int" where
  "ilog2 x =
     (let a = fst (quotient_of x); b = snd (quotient_of x);
          d = int (floorlog 2 (nat a)) - int (floorlog 2 (nat b))
      in if 2 powi d \<le> x then d else d - 1)"

definition ulp :: "rat \<Rightarrow> rat" where
  "ulp x = 2 powi (max (ilog2 \<bar>x\<bar>) (- 1022) - 52)"

definition float64 :: "rat \<Rightarrow> rat" where
  "float64 x = (if x = 0 then 0 else of_int (round_half_even (x / ulp x)) * ulp x)"

definition fmul :: "rat \<Rightarrow> rat \<Rightarrow> rat" where
  "fmul x y = float64 (x * y)"

definition fadd :: "rat \<Rightarrow> rat \<Rightarrow> rat" where
  "fadd x y = float64 (x + y)"

definition digit_char :: "nat \<Rightarrow> char" where
  "digit_char n = char_of (48 + n)"

fun decimal :: "nat \<Rightarrow> string" where
  "decimal n = (if n < 10 then [digit_char n] else decimal (n div 10) @ [digit_char (n mod 10)])"

declare decimal.simps [simp del]

text \<open>
  \<open>fmt.Sprintf("%.2f", x)\<close>: the exact value of \<open>x\<close> rounded to two decimals, ties to
  even, printed as integer part, point and two digits.
\<close>
definition Sprintf_2f :: "rat \<Rightarrow> string" where
  "Sprintf_2f x =
     (let n = nat (round_half_even (\<bar>x\<bar> * 100))
      in (if x < 0 then ''-'' else []) @ decimal (n div 100) @ ''.'' @
         [digit_char (n mod 100 div 10), digit_char (n mod 10)])"

subsection \<open>The reading generator\<close>

text \<open>
  The inputs that one call of \<open>publishSensorReading\<close> takes from its environment:
  the result of \<open>rand.Float64()\<close>, the UUID and the clock readings of
  \<open>NewSimpleReading\<close>, and the \<open>time.Now()\<close> stored in \<open>LastReading\<close>.
  (\<open>GenerateUUID\<close> panics when the random source of the system fails; the model
  starts from its result.)
\<close>
record tick_env =
  rand_Float64 :: rat
  uuid :: string
  origin_ms :: int
  created_ms :: int
  modified_ms :: int
  now :: Time

definition NewSimpleReading ::
  "tick_env \<Rightarrow> string \<Rightarrow> string \<Rightarrow> string \<Rightarrow> string \<Rightarrow> string \<Rightarrow> Reading" where
  "NewSimpleReading env profileName deviceName resourceName valueType val =
     \<lparr>ReadingId = uuid env, Origin = origin_ms env, DeviceName = deviceName,
      ResourceName = resourceName, ReadingProfileName = profileName,
      ValueType = valueType, Value = val, Units = [],
      Created = created_ms env, Modified = modified_ms env\<rparr>"

text \<open>A missing key of a Go map reads as the empty string.\<close>
definition deviceType :: "VirtualDevice \<Rightarrow> string" where
  "deviceType d = (case Protocols d ''type'' of None \<Rightarrow> [] | Some t \<Rightarrow> t)"

definition generateReading :: "VirtualDevice \<Rightarrow> tick_env \<Rightarrow> Reading" where
  "generateReading d env =
     (let r = rand_Float64 env;
          (val, units, resourceName, valueType) =
            (if deviceType d = ''temperature'' then
               (Sprintf_2f (fadd 20 (fmul r 15)), ''Celsius'', ''Temperature'', ValueTypeFloat64)
             else if deviceType d = ''humidity'' then
               (Sprintf_2f (fadd 30 (fmul r 40)), ''Percent'', ''Humidity'', ValueTypeFloat64)
             else if deviceType d = ''pressure'' then
               (Sprintf_2f (fadd 1013 (fmul r 20)), ''hPa'', ''Pressure'', ValueTypeFloat64)
             else
               (Sprintf_2f (fmul r 100), ''Units'', ''GenericSensor'', ValueTypeFloat64));
          reading = NewSimpleReading env (ProfileName d) (Name d) resourceName valueType val
      in reading\<lparr>Units := units\<rparr>)"

subsection \<open>Construction and bootstrap\<close>

definition emptyService :: system where
  "emptyService = \<lparr>virtualDevices = Map.empty, stopChannels = Map.empty,
     heap = (\<lambda>_. zeroDevice), nextPtr = 0, nextChan = 0, closedChans = {},
     goroutines = [], published = []\<rparr>"

definition defaultDevice :: "string \<Rightarrow> string \<Rightarrow> string \<Rightarrow> string \<Rightarrow> string \<Rightarrow> VirtualDevice" where
  "defaultDevice u name descr profile kind =
     \<lparr>Id' = u, Name = name, Description = descr, ProfileName = profile,
      ServiceName = DeviceVirtualServiceKey, AdminState = Unlocked, OperatingState = Up,
      Protocols = [''virtual'' \<mapsto> ''true'', ''type'' \<mapsto> kind],
      LastReading = 0, IsRunning = False\<rparr>"

text \<open>Storing \<open>&device\<close> in the registry: the struct gets the next heap cell.\<close>
definition store :: "system \<Rightarrow> string \<Rightarrow> VirtualDevice \<Rightarrow> system" where
  "store s k d =
     s\<lparr>heap := (heap s)(nextPtr s := d), nextPtr := Suc (nextPtr s),
       virtualDevices := (virtualDevices s)(k \<mapsto> nextPtr s)\<rparr>"

text \<open>
  \<open>initializeDefaultDevices\<close>, with the three results of \<open>models.GenerateUUID()\<close> as
  arguments; the loop stores each device under its own \<open>Id\<close>.
\<close>
definition initializeDefaultDevices :: "system \<Rightarrow> string \<Rightarrow> string \<Rightarrow> string \<Rightarrow> system" where
  "initializeDefaultDevices s u1 u2 u3 =
     (let d1 = defaultDevice u1 ''Virtual-Temperature-Sensor-01''
                 ''Virtual temperature sensor for testing'' ''TemperatureSensorProfile''
                 ''temperature'';
          d2 = defaultDevice u2 ''Virtual-Humidity-Sensor-01''
                 ''Virtual humidity sensor for testing'' ''HumiditySensorProfile''
                 ''humidity'';
          d3 = defaultDevice u3 ''Virtual-Pressure-Sensor-01''
                 ''Virtual pressure sensor for testing'' ''PressureSensorProfile''
                 ''pressure''
      in store (store (store s (Id' d1) d1) (Id' d2) d2) (Id' d3) d3)"

definition NewDeviceVirtualService :: "string \<Rightarrow> string \<Rightarrow> string \<Rightarrow> system" where
  "NewDeviceVirtualService u1 u2 u3 = initializeDefaultDevices emptyService u1 u2 u3"

text \<open>
  What start does to a stopped device at heap cell \<open>p\<close>, with \<open>k\<close> the key of the stop
  channel: set the flag, make the channel, start the goroutine.
\<close>
definition launch :: "system \<Rightarrow> string \<Rightarrow> ptr \<Rightarrow> system" where
  "launch s k p =
     s\<lparr>heap := (heap s)(p := (heap s p)\<lparr>IsRunning := True\<rparr>),
       stopChannels := (stopChannels s)(k \<mapsto> nextChan s),
       nextChan := Suc (nextChan s),
       goroutines := goroutines s @ [\<lparr>device = p, loc = LoopHead\<rparr>]\<rparr>"

text \<open>
  \<open>startDataGeneration\<close> ranges over the registry in an order Go does not fix: the
  order is the argument \<open>ks\<close>, a list of the keys. The stop channel is stored under
  the \<open>Id\<close> field of the struct.
\<close>
fun startDataGeneration :: "system \<Rightarrow> string list \<Rightarrow> system" where
  "startDataGeneration s [] = s"
| "startDataGeneration s (k # ks) =
     (case virtualDevices s k of
        None \<Rightarrow> startDataGeneration s ks
      | Some p \<Rightarrow>
          if \<not> IsRunning (heap s p)
          then startDataGeneration (launch s (Id' (heap s p)) p) ks
          else startDataGeneration s ks)"

definition Initialize :: "system \<Rightarrow> string list \<Rightarrow> system \<times> bool" where
  "Initialize s ks = (startDataGeneration s ks, True)"

subsection \<open>The HTTP handlers\<close>

text \<open>
  A request body is given by what \<open>json.NewDecoder(r.Body).Decode\<close> makes of it:
  \<open>None\<close> when it returns an error, the filled struct otherwise. The path variable
  \<open>id\<close> is an argument, and so is the result of \<open>models.GenerateUUID()\<close>.
\<close>

definition createVirtualDevice ::
  "system \<Rightarrow> VirtualDevice option \<Rightarrow> string \<Rightarrow> system \<times> outcome" where
  "createVirtualDevice s decoded u =
     (case decoded of
        None \<Rightarrow> (s, Response StatusBadRequest (ErrorText ''Invalid JSON''))
      | Some device0 \<Rightarrow>
          let device1 = device0\<lparr>Id' := u, ServiceName := DeviceVirtualServiceKey,
                                IsRunning := False\<rparr>;
              device2 = (if AdminState device1 = [] then device1\<lparr>AdminState := Unlocked\<rparr>
                         else device1);
              device3 = (if OperatingState device2 = [] then device2\<lparr>OperatingState := Up\<rparr>
                         else device2)
          in (store s (Id' device3) device3, Response StatusCreated (CreatedId (Id' device3))))"

definition getVirtualDevice :: "system \<Rightarrow> string \<Rightarrow> system \<times> outcome" where
  "getVirtualDevice s id' =
     (case virtualDevices s id' of
        None \<Rightarrow> (s, Response StatusNotFound (ErrorText ''Virtual device not found''))
      | Some p \<Rightarrow> (s, Response StatusOK (DeviceBody (heap s p))))"

definition updateVirtualDevice ::
  "system \<Rightarrow> string \<Rightarrow> VirtualDevice option \<Rightarrow> system \<times> outcome" where
  "updateVirtualDevice s id' decoded =
     (case decoded of
        None \<Rightarrow> (s, Response StatusBadRequest (ErrorText ''Invalid JSON''))
      | Some updatedDevice \<Rightarrow>
          (case virtualDevices s id' of
             None \<Rightarrow> (s, Response StatusNotFound (ErrorText ''Virtual device not found''))
           | Some existing \<Rightarrow>
               (store s id' (updatedDevice\<lparr>Id' := id', IsRunning := IsRunning (heap s existing)\<rparr>),
                Response StatusOK (Message ''Virtual device updated successfully''))))"

text \<open>\<open>close\<close> panics on a nil channel and on a channel that is closed already.\<close>
definition close_chan :: "system \<Rightarrow> chan option \<Rightarrow> string + system" where
  "close_chan s c =
     (case c of
        None \<Rightarrow> Inl ''close of nil channel''
      | Some ch \<Rightarrow>
          if ch \<in> closedChans s then Inl ''close of closed channel''
          else Inr (s\<lparr>closedChans := insert ch (closedChans s)\<rparr>))"

definition deleteVirtualDevice :: "system \<Rightarrow> string \<Rightarrow> system \<times> outcome" where
  "deleteVirtualDevice s id' =
     (case virtualDevices s id' of
        None \<Rightarrow> (s, Response StatusNotFound (ErrorText ''Virtual device not found''))
      | Some p \<Rightarrow>
          if IsRunning (heap s p) then
            (case close_chan s (stopChannels s id') of
               Inl msg \<Rightarrow> (s, Panic msg)
             | Inr s1 \<Rightarrow>
                 (s1\<lparr>stopChannels := (stopChannels s1)(id' := None),
                     virtualDevices := (virtualDevices s1)(id' := None)\<rparr>,
                  Response StatusOK (Message ''Virtual device deleted successfully'')))
          else
            (s\<lparr>virtualDevices := (virtualDevices s)(id' := None)\<rparr>,
             Response StatusOK (Message ''Virtual device deleted successfully'')))"

definition startDevice :: "system \<Rightarrow> string \<Rightarrow> system \<times> outcome" where
  "startDevice s id' =
     (case virtualDevices s id' of
        None \<Rightarrow> (s, Response StatusNotFound (ErrorText ''Virtual device not found''))
      | Some p \<Rightarrow>
          if \<not> IsRunning (heap s p)
          then (launch s id' p, Response StatusOK (Message ''Virtual device started successfully''))
          else (s, Response StatusOK (Message ''Virtual device started successfully'')))"

definition stopDevice :: "system \<Rightarrow> string \<Rightarrow> system \<times> outcome" where
  "stopDevice s id' =
     (case virtualDevices s id' of
        None \<Rightarrow> (s, Response StatusNotFound (ErrorText ''Virtual device not found''))
      | Some p \<Rightarrow>
          if IsRunning (heap s p) then
            (let s0 = s\<lparr>heap := (heap s)(p := (heap s p)\<lparr>IsRunning := False\<rparr>)\<rparr>
             in case close_chan s0 (stopChannels s0 id') of
                  Inl msg \<Rightarrow> (s0, Panic msg)
                | Inr s1 \<Rightarrow>
                    (s1\<lparr>stopChannels := (stopChannels s1)(id' := None)\<rparr>,
                     Response StatusOK (Message ''Virtual device stopped successfully'')))
          else (s, Response StatusOK (Message ''Virtual device stopped successfully'')))"

subsection \<open>The simulation loop\<close>

text \<open>
  \<open>publishSensorReading\<close>: generate a reading (the source only logs it; here it is
  appended to \<open>published\<close>) and stamp the struct the goroutine holds.
\<close>
definition publishSensorReading :: "system \<Rightarrow> ptr \<Rightarrow> tick_env \<Rightarrow> system" where
  "publishSensorReading s p env =
     s\<lparr>published := published s @ [generateReading (heap s p) env],
       heap := (heap s)(p := (heap s p)\<lparr>LastReading := now env\<rparr>)\<rparr>"

text \<open>
  One step of goroutine \<open>i\<close> of \<open>generateDeviceData\<close>. The goroutine takes no lock,
  so its steps interleave freely with the handlers. \<open>EnterSelect\<close> evaluates
  \<open>s.stopChannels[device.Id]\<close> and enters the \<open>select\<close>; \<open>TickerFired\<close> is the
  case \<open><-ticker.C\<close> being chosen; \<open>Publish\<close> is the call of
  \<open>publishSensorReading\<close> in that case; \<open>Stopped\<close> is the case of the stop channel,
  which can be chosen once that channel is closed, and returns. When the ticker has
  fired and the stop channel is closed, Go chooses one of the two cases at random. A
  step that is not enabled gives \<open>None\<close>. The read of \<open>EnterSelect\<close> is unlocked: the
  case that the runtime catches it inside a write of the map is not here but in the
  \<open>_during\<close> functions further down.
\<close>
datatype loop_event = EnterSelect | TickerFired | Publish tick_env | Stopped

definition loop_step :: "system \<Rightarrow> nat \<Rightarrow> loop_event \<Rightarrow> system option" where
  "loop_step s i ev =
     (if i < length (goroutines s) then
        (let g = goroutines s ! i
         in case (loc g, ev) of
              (LoopHead, EnterSelect) \<Rightarrow>
                Some (s\<lparr>goroutines := (goroutines s)
                         [i := g\<lparr>loc := Select (stopChannels s (Id' (heap s (device g))))\<rparr>]\<rparr>)
            | (Select c, TickerFired) \<Rightarrow>
                Some (s\<lparr>goroutines := (goroutines s)[i := g\<lparr>loc := Publishing\<rparr>]\<rparr>)
            | (Publishing, Publish env) \<Rightarrow>
                Some ((publishSensorReading s (device g) env)
                        \<lparr>goroutines := (goroutines s)[i := g\<lparr>loc := LoopHead\<rparr>]\<rparr>)
            | (Select (Some ch), Stopped) \<Rightarrow>
                if ch \<in> closedChans s
                then Some (s\<lparr>goroutines := (goroutines s)[i := g\<lparr>loc := Returned\<rparr>]\<rparr>)
                else None
            | _ \<Rightarrow> None)
      else None)"

subsection \<open>The invariant and the reachable states\<close>

text \<open>
  Every registry entry points to an allocated struct whose \<open>Id\<close> is its key; a key
  has a stop channel exactly when its struct is running; stop channels in the map are
  open, allocated and not shared between keys.
\<close>

definition registry_ok :: "system \<Rightarrow> bool" where
  "registry_ok s \<longleftrightarrow>
     (\<forall>k p. virtualDevices s k = Some p \<longrightarrow> p < nextPtr s \<and> Id' (heap s p) = k)"

definition handles_ok :: "system \<Rightarrow> bool" where
  "handles_ok s \<longleftrightarrow>
     (\<forall>k. (stopChannels s k \<noteq> None) = (\<exists>p. virtualDevices s k = Some p \<and> IsRunning (heap s p)))"

definition channels_ok :: "system \<Rightarrow> bool" where
  "channels_ok s \<longleftrightarrow>
     (\<forall>k c. stopChannels s k = Some c \<longrightarrow> c < nextChan s \<and> c \<notin> closedChans s) \<and>
     (\<forall>j k c. stopChannels s j = Some c \<longrightarrow> stopChannels s k = Some c \<longrightarrow> j = k) \<and>
     (\<forall>c. c \<in> closedChans s \<longrightarrow> c < nextChan s)"

definition service_inv :: "system \<Rightarrow> bool" where
  "service_inv s \<longleftrightarrow> registry_ok s \<and> handles_ok s \<and> channels_ok s"

text \<open>
  The states of a service: built by the constructor, then changed by \<open>Initialize\<close>, by
  the handlers and by steps of the loops, in any order. \<open>GenerateUUID\<close> is taken to
  return an id that the registry does not hold.
\<close>

inductive reachable :: "system \<Rightarrow> bool" where
  new: "reachable (NewDeviceVirtualService u1 u2 u3)"
| initialize: "reachable s \<Longrightarrow> distinct ks \<Longrightarrow> set ks = dom (virtualDevices s) \<Longrightarrow>
    reachable (fst (Initialize s ks))"
| create: "reachable s \<Longrightarrow> u \<notin> dom (virtualDevices s) \<Longrightarrow>
    reachable (fst (createVirtualDevice s decoded u))"
| get: "reachable s \<Longrightarrow> reachable (fst (getVirtualDevice s id'))"
| update: "reachable s \<Longrightarrow> reachable (fst (updateVirtualDevice s id' decoded))"
| delete: "reachable s \<Longrightarrow> reachable (fst (deleteVirtualDevice s id'))"
| start: "reachable s \<Longrightarrow> reachable (fst (startDevice s id'))"
| stop: "reachable s \<Longrightarrow> reachable (fst (stopDevice s id'))"
| loop: "reachable s \<Longrightarrow> loop_step s i ev = Some s' \<Longrightarrow> reachable s'"

subsection \<open>Reading a formatted value back\<close>

text \<open>
  What a consumer of a reading sees is the string. \<open>two_decimals\<close> says that a string
  is digits, a point and two digits; \<open>fixed_value\<close> is the number such a string
  denotes.
\<close>

definition is_digit :: "char \<Rightarrow> bool" where
  "is_digit c \<longleftrightarrow> 48 \<le> (of_char c :: nat) \<and> (of_char c :: nat) \<le> 57"

definition digit_val :: "char \<Rightarrow> nat" where
  "digit_val c = of_char c - 48"

definition nat_of_digits :: "string \<Rightarrow> nat" where
  "nat_of_digits cs = foldl (\<lambda>n c. 10 * n + digit_val c) 0 cs"

definition two_decimals :: "string \<Rightarrow> bool" where
  "two_decimals v \<longleftrightarrow>
     4 \<le> length v \<and> v ! (length v - 3) = CHR ''.'' \<and>
     list_all is_digit (take (length v - 3) v) \<and>
     list_all is_digit (drop (length v - 2) v)"

definition fixed_value :: "string \<Rightarrow> rat" where
  "fixed_value v =
     of_nat (nat_of_digits (take (length v - 3) v)) +
     of_nat (nat_of_digits (drop (length v - 2) v)) / 100"

subsection \<open>A run in which a loop is about to publish\<close>

text \<open>
  The temperature device is started (\<open>started\<close>), its goroutine enters the
  \<open>select\<close> (\<open>selecting\<close>), and the ticker fires (\<open>publishing\<close>): the goroutine
  is between the \<open>select\<close> and the call of \<open>publishSensorReading\<close>. The two later
  states are written out; \<open>started_steps\<close> below shows that the loop steps lead to
  them.
\<close>

definition started :: system where
  "started = fst (startDevice (NewDeviceVirtualService ''t'' ''h'' ''p'') ''t'')"

definition selecting :: system where
  "selecting = started\<lparr>goroutines := [\<lparr>device = 0, loc = Select (Some 0)\<rparr>]\<rparr>"

definition publishing :: system where
  "publishing = started\<lparr>goroutines := [\<lparr>device = 0, loc = Publishing\<rparr>]\<rparr>"

definition env0 :: tick_env where
  "env0 = \<lparr>rand_Float64 = 1 / 2, uuid = ''r1'', origin_ms = 0, created_ms = 0,
     modified_ms = 0, now = 5\<rparr>"

subsection \<open>A read of the stop-channel map that meets a write\<close>

text \<open>
  \<open>generateDeviceData\<close> reads \<open>s.stopChannels\<close> with no lock (the step
  \<open>EnterSelect\<close>), while \<open>startDataGeneration\<close>, \<open>startDevice\<close>, \<open>stopDevice\<close> and
  \<open>deleteVirtualDevice\<close> write it. When the Go runtime catches such a read inside a
  write of the map it ends the process with
  \<open>fatal error: concurrent map read and map write\<close>. The functions above describe the
  calls during whose writes no read is caught. The functions below are the same calls
  with one more input from the scheduler: \<open>readers\<close>, the goroutines whose read the
  runtime catches inside the write of the call. Only a goroutine at the head of its
  loop can be caught: there the read is its next action. A read that is not caught
  sees the map before or after the write, which are the interleavings of \<open>loop_step\<close>
  with the calls above.
\<close>

datatype 'a ended = Done system 'a | Fatal string

definition map_fault :: string where
  "map_fault = ''fatal error: concurrent map read and map write''"

definition caught :: "system \<Rightarrow> nat list \<Rightarrow> bool" where
  "caught s readers \<longleftrightarrow>
     list_ex (\<lambda>i. i < length (goroutines s) \<and> loc (goroutines s ! i) = LoopHead) readers"

text \<open>
  \<open>startDataGeneration\<close> writes the map once for every device it starts;
  \<open>readers k\<close> are the reads caught inside the write for key \<open>k\<close>. The goroutine
  started for one device is at the head of its loop while the next device is written.
\<close>
fun startDataGeneration_during ::
  "system \<Rightarrow> string list \<Rightarrow> (string \<Rightarrow> nat list) \<Rightarrow> unit ended" where
  "startDataGeneration_during s [] readers = Done s ()"
| "startDataGeneration_during s (k # ks) readers =
     (case virtualDevices s k of
        None \<Rightarrow> startDataGeneration_during s ks readers
      | Some p \<Rightarrow>
          if \<not> IsRunning (heap s p)
          then (if caught s (readers k) then Fatal map_fault
                else startDataGeneration_during (launch s (Id' (heap s p)) p) ks readers)
          else startDataGeneration_during s ks readers)"

definition Initialize_during ::
  "system \<Rightarrow> string list \<Rightarrow> (string \<Rightarrow> nat list) \<Rightarrow> bool ended" where
  "Initialize_during s ks readers =
     (case startDataGeneration_during s ks readers of
        Done s' _ \<Rightarrow> Done s' True
      | Fatal msg \<Rightarrow> Fatal msg)"

definition startDevice_during :: "system \<Rightarrow> string \<Rightarrow> nat list \<Rightarrow> outcome ended" where
  "startDevice_during s id' readers =
     (case virtualDevices s id' of
        None \<Rightarrow> Done s (Response StatusNotFound (ErrorText ''Virtual device not found''))
      | Some p \<Rightarrow>
          if \<not> IsRunning (heap s p)
          then (if caught s readers then Fatal map_fault
                else Done (launch s id' p)
                       (Response StatusOK (Message ''Virtual device started successfully'')))
          else Done s (Response StatusOK (Message ''Virtual device started successfully'')))"

definition stopDevice_during :: "system \<Rightarrow> string \<Rightarrow> nat list \<Rightarrow> outcome ended" where
  "stopDevice_during s id' readers =
     (case virtualDevices s id' of
        None \<Rightarrow> Done s (Response StatusNotFound (ErrorText ''Virtual device not found''))
      | Some p \<Rightarrow>
          if IsRunning (heap s p) then
            (let s0 = s\<lparr>heap := (heap s)(p := (heap s p)\<lparr>IsRunning := False\<rparr>)\<rparr>
             in case close_chan s0 (stopChannels s0 id') of
                  Inl msg \<Rightarrow> Done s0 (Panic msg)
                | Inr s1 \<Rightarrow>
                    if caught s1 readers then Fatal map_fault
                    else Done (s1\<lparr>stopChannels := (stopChannels s1)(id' := None)\<rparr>)
                           (Response StatusOK (Message ''Virtual device stopped successfully'')))
          else Done s (Response StatusOK (Message ''Virtual device stopped successfully'')))"

definition deleteVirtualDevice_during ::
  "system \<Rightarrow> string \<Rightarrow> nat list \<Rightarrow> outcome ended" where
  "deleteVirtualDevice_during s id' readers =
     (case virtualDevices s id' of
        None \<Rightarrow> Done s (Response StatusNotFound (ErrorText ''Virtual device not found''))
      | Some p \<Rightarrow>
          if IsRunning (heap s p) then
            (case close_chan s (stopChannels s id') of
               Inl msg \<Rightarrow> Done s (Panic msg)
             | Inr s1 \<Rightarrow>
                 if caught s1 readers then Fatal map_fault
                 else Done (s1\<lparr>stopChannels := (stopChannels s1)(id' := None),
                              virtualDevices := (virtualDevices s1)(id' := None)\<rparr>)
                        (Response StatusOK (Message ''Virtual device deleted successfully'')))
          else
            Done (s\<lparr>virtualDevices := (virtualDevices s)(id' := None)\<rparr>)
              (Response StatusOK (Message ''Virtual device deleted successfully'')))"

subsection \<open>Later states, and the loops of a device\<close>

text \<open>
  One transition of a live service, with the transitions that make up \<open>reachable\<close>;
  \<open>rtranclp step s t\<close> says that \<open>t\<close> is \<open>s\<close> or a later state.
\<close>

inductive step :: "system \<Rightarrow> system \<Rightarrow> bool" where
  initialize: "distinct ks \<Longrightarrow> set ks = dom (virtualDevices s) \<Longrightarrow>
    step s (fst (Initialize s ks))"
| create: "u \<notin> dom (virtualDevices s) \<Longrightarrow> step s (fst (createVirtualDevice s decoded u))"
| get: "step s (fst (getVirtualDevice s id'))"
| update: "step s (fst (updateVirtualDevice s id' decoded))"
| delete: "step s (fst (deleteVirtualDevice s id'))"
| start: "step s (fst (startDevice s id'))"
| stop: "step s (fst (stopDevice s id'))"
| loop: "loop_step s i ev = Some s' \<Longrightarrow> step s s'"

text \<open>
  The loops of a device: the goroutines that have not returned and whose struct
  carries the id. (After an update the loop still holds the struct it was started
  with; its \<open>Id\<close> is the same.)
\<close>

definition live_loops :: "system \<Rightarrow> string \<Rightarrow> nat" where
  "live_loops s k =
     length (filter (\<lambda>g. loc g \<noteq> Returned \<and> Id' (heap s (device g)) = k) (goroutines s))"

subsection \<open>A run in which a loop misses the stop\<close>

text \<open>
  From \<open>publishing\<close>: the device is stopped while its loop is about to publish
  (\<open>stopped_early\<close>); the loop publishes and enters its \<open>select\<close> again, where the
  map has no entry any more (\<open>deaf\<close>); the device is started again and the new loop
  enters its \<open>select\<close> (\<open>doubled\<close>).
\<close>

definition stopped_early :: system where
  "stopped_early = fst (stopDevice publishing ''t'')"

definition deaf :: system where
  "deaf = the (loop_step (the (loop_step stopped_early 0 (Publish env0))) 0 EnterSelect)"

definition doubled :: system where
  "doubled = the (loop_step (fst (startDevice deaf ''t'')) 1 EnterSelect)"

text \<open>
  The reads caught during \<open>Initialize\<close> in the run of C10: while the humidity device
  is written, the loop just started for the temperature device reads the map.
\<close>
definition first_loop_reads :: "string \<Rightarrow> nat list" where
  "first_loop_reads k = (if k = ''h'' then [0] else [])"

section \<open>The invariant holds in every reachable state\<close>

lemma store_sel [simp]:
  "stopChannels (store s k d) = stopChannels s"
  "virtualDevices (store s k d) = (virtualDevices s)(k \<mapsto> nextPtr s)"
  "heap (store s k d) = (heap s)(nextPtr s := d)"
  "nextPtr (store s k d) = Suc (nextPtr s)"
  "nextChan (store s k d) = nextChan s"
  "closedChans (store s k d) = closedChans s"
  "goroutines (store s k d) = goroutines s"
  "published (store s k d) = published s"
  by (simp_all add: store_def)

lemma launch_sel [simp]:
  "stopChannels (launch s k p) = (stopChannels s)(k \<mapsto> nextChan s)"
  "virtualDevices (launch s k p) = virtualDevices s"
  "heap (launch s k p) = (heap s)(p := (heap s p)\<lparr>IsRunning := True\<rparr>)"
  "nextPtr (launch s k p) = nextPtr s"
  "nextChan (launch s k p) = Suc (nextChan s)"
  "closedChans (launch s k p) = closedChans s"
  "goroutines (launch s k p) = goroutines s @ [\<lparr>device = p, loc = LoopHead\<rparr>]"
  "published (launch s k p) = published s"
  by (simp_all add: launch_def)

lemma registry_ok_store:
  assumes "registry_ok s" and "Id' d = k"
  shows "registry_ok (store s k d)"
  using assms unfolding registry_ok_def
  by (auto simp: less_Suc_eq)

lemma handles_ok_store:
  assumes "registry_ok s" and "handles_ok s"
    and "IsRunning d = (stopChannels s k \<noteq> None)"
  shows "handles_ok (store s k d)"
  unfolding handles_ok_def
proof (intro allI)
  fix j
  show "(stopChannels (store s k d) j \<noteq> None) =
        (\<exists>p. virtualDevices (store s k d) j = Some p \<and> IsRunning (heap (store s k d) p))"
  proof (cases "j = k")
    case True
    then show ?thesis using assms(3) by simp
  next
    case False
    have "\<And>p. virtualDevices s j = Some p \<Longrightarrow> p \<noteq> nextPtr s"
      using assms(1) unfolding registry_ok_def by fastforce
    then show ?thesis using False assms(2) unfolding handles_ok_def by auto
  qed
qed

lemma channels_ok_store: "channels_ok s \<Longrightarrow> channels_ok (store s k d)"
  by (simp add: channels_ok_def)

lemma inv_store:
  assumes "service_inv s" and "Id' d = k" and "IsRunning d = (stopChannels s k \<noteq> None)"
  shows "service_inv (store s k d)"
  using assms registry_ok_store handles_ok_store channels_ok_store unfolding service_inv_def by blast

lemma inv_empty: "service_inv emptyService"
  by (simp add: service_inv_def registry_ok_def handles_ok_def channels_ok_def emptyService_def)

lemma inv_new: "service_inv (NewDeviceVirtualService u1 u2 u3)"
  unfolding NewDeviceVirtualService_def initializeDefaultDevices_def Let_def
  by (intro inv_store inv_empty) (simp_all add: defaultDevice_def emptyService_def)

lemma inv_launch:
  assumes "service_inv s" and "virtualDevices s k = Some p" and "\<not> IsRunning (heap s p)"
  shows "service_inv (launch s k p)"
proof -
  have reg: "registry_ok s" and han: "handles_ok s" and ch: "channels_ok s"
    using assms(1) by (simp_all add: service_inv_def)
  have inj: "\<And>j q. virtualDevices s j = Some q \<Longrightarrow> (q = p) = (j = k)"
    using reg assms(2) unfolding registry_ok_def by auto
  have 1: "registry_ok (launch s k p)"
    using reg unfolding registry_ok_def by simp
  have 2: "handles_ok (launch s k p)"
    unfolding handles_ok_def
  proof (intro allI)
    fix j
    show "(stopChannels (launch s k p) j \<noteq> None) =
          (\<exists>q. virtualDevices (launch s k p) j = Some q \<and> IsRunning (heap (launch s k p) q))"
    proof (cases "j = k")
      case True
      then show ?thesis using assms(2) by simp
    next
      case False
      have "\<And>q. virtualDevices s j = Some q \<Longrightarrow> q \<noteq> p"
        using inj False by blast
      then show ?thesis using False han unfolding handles_ok_def by auto
    qed
  qed
  have 3: "channels_ok (launch s k p)"
  proof -
    have a: "\<And>j c. stopChannels s j = Some c \<Longrightarrow> c < nextChan s \<and> c \<notin> closedChans s"
      and b: "\<And>i j c. stopChannels s i = Some c \<Longrightarrow> stopChannels s j = Some c \<Longrightarrow> i = j"
      and c: "\<And>c. c \<in> closedChans s \<Longrightarrow> c < nextChan s"
      using ch unfolding channels_ok_def by blast+
    have fresh: "\<And>j. stopChannels s j \<noteq> Some (nextChan s)"
      using a by fastforce
    have "nextChan s \<notin> closedChans s" using c by fastforce
    then have "\<forall>j c. stopChannels (launch s k p) j = Some c \<longrightarrow>
        c < nextChan (launch s k p) \<and> c \<notin> closedChans (launch s k p)"
      using a by (auto simp: less_Suc_eq)
    moreover have "\<forall>i j c. stopChannels (launch s k p) i = Some c \<longrightarrow>
        stopChannels (launch s k p) j = Some c \<longrightarrow> i = j"
      using b fresh by (auto split: if_splits)
    moreover have "\<forall>c. c \<in> closedChans (launch s k p) \<longrightarrow> c < nextChan (launch s k p)"
      using c by (auto simp: less_Suc_eq)
    ultimately show ?thesis unfolding channels_ok_def by blast
  qed
  show ?thesis using 1 2 3 by (simp add: service_inv_def)
qed

lemma inv_startDataGeneration: "service_inv s \<Longrightarrow> service_inv (startDataGeneration s ks)"
proof (induction ks arbitrary: s)
  case Nil
  then show ?case by simp
next
  case (Cons k ks)
  show ?case
  proof (cases "virtualDevices s k")
    case None
    then show ?thesis using Cons by simp
  next
    case (Some p)
    have "Id' (heap s p) = k"
      using Cons.prems Some by (simp add: service_inv_def registry_ok_def)
    then show ?thesis
      using Some Cons.IH [OF Cons.prems] Cons.IH [OF inv_launch [OF Cons.prems Some]]
      by simp
  qed
qed

lemma inv_create:
  assumes "service_inv s" and "u \<notin> dom (virtualDevices s)"
  shows "service_inv (fst (createVirtualDevice s decoded u))"
proof (cases decoded)
  case None
  then show ?thesis using assms(1) by (simp add: createVirtualDevice_def)
next
  case (Some d)
  have "stopChannels s u = None"
    using assms unfolding service_inv_def handles_ok_def by (metis domI)
  then show ?thesis
    using Some assms(1) by (simp add: createVirtualDevice_def Let_def inv_store)
qed

lemma inv_update:
  assumes "service_inv s"
  shows "service_inv (fst (updateVirtualDevice s k decoded))"
proof (cases decoded)
  case None
  then show ?thesis using assms by (simp add: updateVirtualDevice_def)
next
  case (Some d)
  show ?thesis
  proof (cases "virtualDevices s k")
    case None
    then show ?thesis using Some assms by (simp add: updateVirtualDevice_def)
  next
    case (Some p)
    have "IsRunning (heap s p) = (stopChannels s k \<noteq> None)"
      using assms Some unfolding service_inv_def handles_ok_def by simp
    then show ?thesis
      using Some \<open>decoded = Some d\<close> assms by (simp add: updateVirtualDevice_def inv_store)
  qed
qed

lemma inv_get: "service_inv s \<Longrightarrow> service_inv (fst (getVirtualDevice s k))"
  by (simp add: getVirtualDevice_def split: option.splits)

text \<open>In a state that satisfies the invariant, closing the stop channel of a running
  device does not panic.\<close>

lemma close_running:
  assumes "service_inv s" and "virtualDevices s k = Some p" and "IsRunning (heap s p)"
  obtains c where "stopChannels s k = Some c" and "c \<notin> closedChans s"
  using assms unfolding service_inv_def handles_ok_def channels_ok_def by blast

lemma inv_delete:
  assumes "service_inv s"
  shows "service_inv (fst (deleteVirtualDevice s k))"
proof (cases "virtualDevices s k")
  case None
  then show ?thesis using assms by (simp add: deleteVirtualDevice_def)
next
  case (Some p)
  have reg: "registry_ok s" and han: "handles_ok s" and ch: "channels_ok s"
    using assms by (simp_all add: service_inv_def)
  show ?thesis
  proof (cases "IsRunning (heap s p)")
    case True
    obtain c where c: "stopChannels s k = Some c" "c \<notin> closedChans s"
      using close_running [OF assms Some True] .
    let ?t = "s\<lparr>closedChans := insert c (closedChans s),
                 stopChannels := (stopChannels s)(k := None),
                 virtualDevices := (virtualDevices s)(k := None)\<rparr>"
    have eq: "fst (deleteVirtualDevice s k) = ?t"
      using Some True c by (simp add: deleteVirtualDevice_def close_chan_def)
    have 1: "registry_ok ?t" using reg unfolding registry_ok_def by simp
    have 2: "handles_ok ?t" using han unfolding handles_ok_def by simp
    have 3: "channels_ok ?t" using ch c unfolding channels_ok_def by auto
    show ?thesis unfolding eq service_inv_def using 1 2 3 by blast
  next
    case False
    let ?t = "s\<lparr>virtualDevices := (virtualDevices s)(k := None)\<rparr>"
    have eq: "fst (deleteVirtualDevice s k) = ?t"
      using Some False by (simp add: deleteVirtualDevice_def)
    have 1: "registry_ok ?t" using reg unfolding registry_ok_def by simp
    have 2: "handles_ok ?t" using han Some False unfolding handles_ok_def by auto
    have 3: "channels_ok ?t" using ch unfolding channels_ok_def by simp
    show ?thesis unfolding eq service_inv_def using 1 2 3 by blast
  qed
qed

lemma inv_start:
  assumes "service_inv s"
  shows "service_inv (fst (startDevice s k))"
  using assms inv_launch by (simp add: startDevice_def split: option.splits)

lemma inv_stop:
  assumes "service_inv s"
  shows "service_inv (fst (stopDevice s k))"
proof (cases "virtualDevices s k")
  case None
  then show ?thesis using assms by (simp add: stopDevice_def)
next
  case (Some p)
  have reg: "registry_ok s" and han: "handles_ok s" and ch: "channels_ok s"
    using assms by (simp_all add: service_inv_def)
  show ?thesis
  proof (cases "IsRunning (heap s p)")
    case True
    obtain c where c: "stopChannels s k = Some c" "c \<notin> closedChans s"
      using close_running [OF assms Some True] .
    let ?t = "s\<lparr>heap := (heap s)(p := (heap s p)\<lparr>IsRunning := False\<rparr>),
                 closedChans := insert c (closedChans s),
                 stopChannels := (stopChannels s)(k := None)\<rparr>"
    have eq: "fst (stopDevice s k) = ?t"
      using Some True c by (simp add: stopDevice_def close_chan_def Let_def)
    have inj: "\<And>j q. virtualDevices s j = Some q \<Longrightarrow> (q = p) = (j = k)"
      using reg Some unfolding registry_ok_def by auto
    have 1: "registry_ok ?t" using reg unfolding registry_ok_def by simp
    have 2: "handles_ok ?t"
      unfolding handles_ok_def
    proof (intro allI)
      fix j
      show "(stopChannels ?t j \<noteq> None) =
            (\<exists>q. virtualDevices ?t j = Some q \<and> IsRunning (heap ?t q))"
      proof (cases "j = k")
        case True
        then show ?thesis using Some by simp
      next
        case False
        have "\<And>q. virtualDevices s j = Some q \<Longrightarrow> q \<noteq> p"
          using inj False by blast
        then show ?thesis using False han unfolding handles_ok_def by auto
      qed
    qed
    have 3: "channels_ok ?t" using ch c unfolding channels_ok_def by auto
    show ?thesis unfolding eq service_inv_def using 1 2 3 by blast
  next
    case False
    then show ?thesis using Some assms by (simp add: stopDevice_def)
  qed
qed

lemma inv_loop_step:
  assumes "service_inv s" and "loop_step s i ev = Some s'"
  shows "service_inv s'"
proof -
  have "virtualDevices s' = virtualDevices s \<and> stopChannels s' = stopChannels s \<and>
        nextPtr s' = nextPtr s \<and> nextChan s' = nextChan s \<and> closedChans s' = closedChans s \<and>
        (\<forall>p. Id' (heap s' p) = Id' (heap s p) \<and> IsRunning (heap s' p) = IsRunning (heap s p))"
    using assms(2)
    by (auto simp: loop_step_def publishSensorReading_def Let_def
        split: if_splits pc.splits loop_event.splits option.splits)
  then show ?thesis
    using assms(1)
    by (simp add: service_inv_def registry_ok_def handles_ok_def channels_ok_def)
qed

lemma reachable_inv: "reachable s \<Longrightarrow> service_inv s"
proof (induction rule: reachable.induct)
  case (new u1 u2 u3)
  show ?case by (rule inv_new)
next
  case (initialize s ks)
  then show ?case by (simp add: Initialize_def inv_startDataGeneration)
next
  case (create s u decoded)
  then show ?case by (simp add: inv_create)
next
  case (get s id')
  then show ?case by (simp add: inv_get)
next
  case (update s id' decoded)
  then show ?case by (simp add: inv_update)
next
  case (delete s id')
  then show ?case by (simp add: inv_delete)
next
  case (start s id')
  then show ?case by (simp add: inv_start)
next
  case (stop s id')
  then show ?case by (simp add: inv_stop)
next
  case (loop s i ev s')
  then show ?case using inv_loop_step by blast
qed

section \<open>Facts about the constructor and the bootstrap\<close>

lemma new_registry:
  "virtualDevices (NewDeviceVirtualService u1 u2 u3) = [u1 \<mapsto> 0, u2 \<mapsto> 1, u3 \<mapsto> 2]"
  by (simp add: NewDeviceVirtualService_def initializeDefaultDevices_def defaultDevice_def
      emptyService_def Let_def numeral_2_eq_2)

lemma new_heap:
  "heap (NewDeviceVirtualService u1 u2 u3) =
     (\<lambda>_. zeroDevice)
       (0 := defaultDevice u1 ''Virtual-Temperature-Sensor-01''
               ''Virtual temperature sensor for testing'' ''TemperatureSensorProfile''
               ''temperature'',
        1 := defaultDevice u2 ''Virtual-Humidity-Sensor-01''
               ''Virtual humidity sensor for testing'' ''HumiditySensorProfile'' ''humidity'',
        2 := defaultDevice u3 ''Virtual-Pressure-Sensor-01''
               ''Virtual pressure sensor for testing'' ''PressureSensorProfile'' ''pressure'')"
  by (simp add: NewDeviceVirtualService_def initializeDefaultDevices_def
      emptyService_def Let_def numeral_2_eq_2)

lemma new_rest:
  "stopChannels (NewDeviceVirtualService u1 u2 u3) = Map.empty"
  "goroutines (NewDeviceVirtualService u1 u2 u3) = []"
  "closedChans (NewDeviceVirtualService u1 u2 u3) = {}"
  "nextChan (NewDeviceVirtualService u1 u2 u3) = 0"
  "nextPtr (NewDeviceVirtualService u1 u2 u3) = 3"
  "published (NewDeviceVirtualService u1 u2 u3) = []"
  by (simp_all add: NewDeviceVirtualService_def initializeDefaultDevices_def
      emptyService_def Let_def)

lemma defaultDevice_sel [simp]:
  "IsRunning (defaultDevice u n de pr k) = False"
  "Id' (defaultDevice u n de pr k) = u"
  "deviceType (defaultDevice u n de pr k) = k"
  by (simp_all add: defaultDevice_def deviceType_def)

lemma zeroDevice_sel [simp]:
  "IsRunning zeroDevice = False" "deviceType zeroDevice = []"
  by (simp_all add: zeroDevice_def deviceType_def)

lemma startDataGeneration_registry [simp]:
  "virtualDevices (startDataGeneration s ks) = virtualDevices s"
  by (induction ks arbitrary: s) (auto split: option.splits)

lemma startDataGeneration_keeps_running:
  "IsRunning (heap s p) \<Longrightarrow> IsRunning (heap (startDataGeneration s ks) p)"
  by (induction ks arbitrary: s) (auto split: option.splits)

lemma startDataGeneration_keeps_goroutines:
  "g \<in> set (goroutines s) \<Longrightarrow> g \<in> set (goroutines (startDataGeneration s ks))"
  by (induction ks arbitrary: s) (auto split: option.splits)

lemma startDataGeneration_starts:
  assumes "k \<in> set ks" and "virtualDevices s k = Some p"
  shows "IsRunning (heap (startDataGeneration s ks) p)"
  using assms
proof (induction ks arbitrary: s)
  case Nil
  then show ?case by simp
next
  case (Cons j ks)
  show ?case
  proof (cases "j = k")
    case True
    then show ?thesis
      using Cons.prems(2) by (simp add: startDataGeneration_keeps_running)
  next
    case False
    then have "k \<in> set ks" using Cons.prems(1) by simp
    then show ?thesis
      using Cons.IH Cons.prems(2) by (simp split: option.splits)
  qed
qed

lemma startDataGeneration_spawns:
  assumes "k \<in> set ks" and "virtualDevices s k = Some p" and "\<not> IsRunning (heap s p)"
    and "\<forall>j q. virtualDevices s j = Some q \<longrightarrow> (q = p) = (j = k)"
  shows "\<lparr>device = p, loc = LoopHead\<rparr> \<in> set (goroutines (startDataGeneration s ks))"
  using assms
proof (induction ks arbitrary: s)
  case Nil
  then show ?case by simp
next
  case (Cons j ks)
  show ?case
  proof (cases "j = k")
    case True
    then show ?thesis
      using Cons.prems(2,3) by (simp add: startDataGeneration_keeps_goroutines)
  next
    case False
    then have k: "k \<in> set ks" using Cons.prems(1) by simp
    show ?thesis
    proof (cases "virtualDevices s j")
      case None
      then show ?thesis using Cons.IH [OF k Cons.prems(2,3,4)] by simp
    next
      case (Some q)
      have qp: "q \<noteq> p" using Cons.prems(4) Some False by blast
      have "\<lparr>device = p, loc = LoopHead\<rparr>
              \<in> set (goroutines (startDataGeneration (launch s (Id' (heap s q)) q) ks))"
        by (rule Cons.IH [OF k]) (use Cons.prems qp in auto)
      then show ?thesis
        using Some Cons.IH [OF k Cons.prems(2,3,4)] by simp
    qed
  qed
qed

section \<open>float64 rounding and the two-decimal format\<close>

lemma rhe_of_int [simp]: "round_half_even (of_int n) = n"
  by (simp add: round_half_even_def)

lemma rhe_mono: assumes "x \<le> y" shows "round_half_even x \<le> round_half_even y"
proof -
  have fx: "of_int \<lfloor>x\<rfloor> \<le> x" "x < of_int \<lfloor>x\<rfloor> + 1" by linarith+
  have fy: "of_int \<lfloor>y\<rfloor> \<le> y" "y < of_int \<lfloor>y\<rfloor> + 1" by linarith+
  have fl: "\<lfloor>x\<rfloor> \<le> \<lfloor>y\<rfloor>" using assms by (rule floor_mono)
  show ?thesis
  proof (cases "\<lfloor>x\<rfloor> = \<lfloor>y\<rfloor>")
    case True
    then show ?thesis using assms
      by (auto simp: round_half_even_def Let_def)
  next
    case False
    then have lt: "\<lfloor>x\<rfloor> + 1 \<le> \<lfloor>y\<rfloor>" using fl by linarith
    have "round_half_even x \<le> \<lfloor>x\<rfloor> + 1" by (auto simp: round_half_even_def Let_def)
    moreover have "\<lfloor>y\<rfloor> \<le> round_half_even y" by (auto simp: round_half_even_def Let_def)
    ultimately show ?thesis using lt by linarith
  qed
qed

lemma rhe_le_int: "x \<le> of_int n \<Longrightarrow> round_half_even x \<le> n"
  using rhe_mono [of x "of_int n"] by simp

lemma rhe_ge_int: "of_int n \<le> x \<Longrightarrow> n \<le> round_half_even x"
  using rhe_mono [of "of_int n" x] by simp

lemma ilog2_bounds:
  assumes "0 < x"
  shows "2 powi (ilog2 x) \<le> x \<and> x < 2 powi (ilog2 x + 1)"
proof -
  obtain a b where q: "quotient_of x = (a, b)" by (cases "quotient_of x")
  have b: "0 < b" using q by (rule quotient_of_denom_pos)
  have x: "x = of_int a / of_int b" using q by (rule quotient_of_div)
  have a: "0 < a" using assms b x by (simp add: zero_less_divide_iff)
  define la where "la = floorlog 2 (nat a)"
  define lb where "lb = floorlog 2 (nat b)"
  have la: "2 ^ (la - 1) \<le> nat a \<and> nat a < 2 ^ la"
    unfolding la_def using floorlog_bounds [of "nat a" 2] a by simp
  have lb: "2 ^ (lb - 1) \<le> nat b \<and> nat b < 2 ^ lb"
    unfolding lb_def using floorlog_bounds [of "nat b" 2] b by simp
  have la0: "0 < la" using la a by (cases la) auto
  have lb0: "0 < lb" using lb b by (cases lb) auto
  have ra: "(2::rat) ^ (la - 1) \<le> of_int a \<and> (of_int a :: rat) < 2 ^ la"
  proof -
    have "(of_nat (2 ^ (la - 1)) :: rat) \<le> of_nat (nat a) \<and> (of_nat (nat a) :: rat) < of_nat (2 ^ la)"
      using la by (metis of_nat_le_iff of_nat_less_iff)
    then show ?thesis using a by simp
  qed
  have rb: "(2::rat) ^ (lb - 1) \<le> of_int b \<and> (of_int b :: rat) < 2 ^ lb"
  proof -
    have "(of_nat (2 ^ (lb - 1)) :: rat) \<le> of_nat (nat b) \<and> (of_nat (nat b) :: rat) < of_nat (2 ^ lb)"
      using lb by (metis of_nat_le_iff of_nat_less_iff)
    then show ?thesis using b by simp
  qed
  define d where "d = int la - int lb"
  have bpos: "(0::rat) < of_int b" using b by simp
  have up: "x < 2 powi (d + 1)"
  proof -
    have "of_int a < (2::rat) ^ la" using ra by simp
    also have "\<dots> = 2 powi (d + 1) * 2 ^ (lb - 1)"
    proof -
      have "(2::rat) powi (d + 1) * 2 ^ (lb - 1) = 2 powi (d + 1) * 2 powi (int (lb - 1))"
        by simp
      also have "\<dots> = 2 powi (d + 1 + int (lb - 1))"
        by (simp add: power_int_add)
      also have "d + 1 + int (lb - 1) = int la" using lb0 by (simp add: d_def)
      finally show ?thesis by simp
    qed
    also have "\<dots> \<le> 2 powi (d + 1) * of_int b"
      using rb by (simp add: mult_left_mono)
    finally have "of_int a < 2 powi (d + 1) * (of_int b :: rat)" .
    then show ?thesis unfolding x using bpos by (simp add: pos_divide_less_eq)
  qed
  have lo: "2 powi (d - 1) < x"
  proof -
    have "2 powi (d - 1) * (of_int b :: rat) < 2 powi (d - 1) * 2 ^ lb"
      using rb by (simp add: mult_strict_left_mono)
    also have "\<dots> = 2 ^ (la - 1)"
    proof -
      have "(2::rat) powi (d - 1) * 2 ^ lb = 2 powi (d - 1) * 2 powi (int lb)" by simp
      also have "\<dots> = 2 powi (d - 1 + int lb)" by (simp add: power_int_add)
      also have "d - 1 + int lb = int (la - 1)" using la0 by (simp add: d_def)
      finally show ?thesis by simp
    qed
    also have "\<dots> \<le> of_int a" using ra by simp
    finally have "2 powi (d - 1) * (of_int b :: rat) < of_int a" .
    then show ?thesis unfolding x using bpos by (simp add: pos_less_divide_eq)
  qed
  have il: "ilog2 x = (if 2 powi d \<le> x then d else d - 1)"
    by (simp add: ilog2_def q la_def lb_def d_def Let_def)
  show ?thesis
  proof (cases "2 powi d \<le> x")
    case True
    then show ?thesis using il up by simp
  next
    case False
    then show ?thesis using il lo by simp
  qed
qed

lemma ilog2_mono:
  assumes "0 < x" and "x \<le> y"
  shows "ilog2 x \<le> ilog2 y"
proof (rule ccontr)
  assume "\<not> ilog2 x \<le> ilog2 y"
  then have "ilog2 y + 1 \<le> ilog2 x" by simp
  then have "(2::rat) powi (ilog2 y + 1) \<le> 2 powi (ilog2 x)"
    by (intro power_int_increasing) simp_all
  moreover have "y < 2 powi (ilog2 y + 1)" using ilog2_bounds [of y] assms by simp
  moreover have "2 powi (ilog2 x) \<le> x" using ilog2_bounds [of x] assms by simp
  ultimately show False using assms(2) by linarith
qed

lemma ulp_pos [simp]: "0 < ulp x"
  by (simp add: ulp_def)

lemma float64_zero [simp]: "float64 0 = 0"
  by (simp add: float64_def)

lemma float64_nonneg:
  assumes "0 \<le> x"
  shows "0 \<le> float64 x"
proof -
  have "0 \<le> x / ulp x" by (rule divide_nonneg_pos [OF assms ulp_pos])
  then have "0 \<le> round_half_even (x / ulp x)" using rhe_ge_int [of 0 "x / ulp x"] by simp
  then have "0 \<le> (of_int (round_half_even (x / ulp x)) :: rat) * ulp x"
    by (intro mult_nonneg_nonneg) (simp_all add: less_imp_le)
  then show ?thesis by (simp add: float64_def)
qed

lemma two_powi_split: "(2::rat) powi (e + 1) = 2 ^ 53 * 2 powi (e - 52)"
proof -
  have "(2::rat) powi (53 + (e - 52)) = 2 powi 53 * 2 powi (e - 52)"
    by (rule power_int_add) simp
  then show ?thesis by (simp add: add.commute)
qed

lemma two_powi_split': "(2::rat) powi e = 2 ^ 52 * 2 powi (e - 52)"
proof -
  have "(2::rat) powi (52 + (e - 52)) = 2 powi 52 * 2 powi (e - 52)"
    by (rule power_int_add) simp
  then show ?thesis by simp
qed

lemma float64_upper:
  assumes "0 < x"
  shows "float64 x \<le> 2 powi (max (ilog2 x) (- 1022) + 1)"
proof -
  define E where "E = max (ilog2 x) (- 1022)"
  have u: "ulp x = 2 powi (E - 52)" using assms by (simp add: ulp_def E_def)
  have "x < 2 powi (ilog2 x + 1)" using ilog2_bounds [OF assms] by simp
  also have "\<dots> \<le> 2 powi (E + 1)"
    by (intro power_int_increasing) (simp_all add: E_def)
  finally have "x < 2 ^ 53 * ulp x" unfolding u using two_powi_split [of E] by simp
  then have "x / ulp x \<le> of_int (2 ^ 53)"
    by (simp add: pos_divide_le_eq)
  then have "round_half_even (x / ulp x) \<le> 2 ^ 53" by (rule rhe_le_int)
  then have "(of_int (round_half_even (x / ulp x)) :: rat) \<le> of_int (2 ^ 53)"
    by (simp only: of_int_le_iff)
  then have "of_int (round_half_even (x / ulp x)) * ulp x \<le> 2 ^ 53 * ulp x"
    by (simp add: mult_right_mono)
  then show ?thesis
    using assms unfolding E_def [symmetric] two_powi_split [of E] u by (simp add: float64_def u)
qed

lemma float64_lower:
  assumes "0 < x" and "- 1022 \<le> ilog2 x"
  shows "2 powi (ilog2 x) \<le> float64 x"
proof -
  have u: "ulp x = 2 powi (ilog2 x - 52)" using assms by (simp add: ulp_def max_def)
  have "2 powi (ilog2 x) \<le> x" using ilog2_bounds [OF assms(1)] by simp
  then have "2 ^ 52 * ulp x \<le> x" unfolding u using two_powi_split' [of "ilog2 x"] by simp
  then have "of_int (2 ^ 52) \<le> x / ulp x"
    by (simp add: pos_le_divide_eq)
  then have "2 ^ 52 \<le> round_half_even (x / ulp x)" by (rule rhe_ge_int)
  then have "(of_int (2 ^ 52) :: rat) \<le> of_int (round_half_even (x / ulp x))"
    by (simp only: of_int_le_iff)
  then have "2 ^ 52 * ulp x \<le> of_int (round_half_even (x / ulp x)) * ulp x"
    by (simp add: mult_right_mono)
  then show ?thesis
    using assms(1) unfolding two_powi_split' [of "ilog2 x"] by (simp add: float64_def u)
qed

lemma float64_mono:
  assumes "0 \<le> x" and "x \<le> y"
  shows "float64 x \<le> float64 y"
proof (cases "x = 0")
  case True
  then show ?thesis using assms float64_nonneg [of y] by simp
next
  case False
  then have x: "0 < x" and y: "0 < y" using assms by simp_all
  define Ex where "Ex = max (ilog2 x) (- 1022)"
  define Ey where "Ey = max (ilog2 y) (- 1022)"
  have le: "Ex \<le> Ey" using ilog2_mono [OF x assms(2)] by (simp add: Ex_def Ey_def)
  have ux: "ulp x = 2 powi (Ex - 52)" using x by (simp add: ulp_def Ex_def)
  have uy: "ulp y = 2 powi (Ey - 52)" using y by (simp add: ulp_def Ey_def)
  show ?thesis
  proof (cases "Ex = Ey")
    case True
    then have same: "ulp y = ulp x" using ux uy by simp
    have "x / ulp x \<le> y / ulp x"
      using assms(2) by (intro divide_right_mono) (simp_all add: less_imp_le)
    then have "round_half_even (x / ulp x) \<le> round_half_even (y / ulp x)" by (rule rhe_mono)
    then have "(of_int (round_half_even (x / ulp x)) :: rat) \<le> of_int (round_half_even (y / ulp x))"
      by (simp only: of_int_le_iff)
    then have "of_int (round_half_even (x / ulp x)) * ulp x \<le> of_int (round_half_even (y / ulp x)) * ulp x"
      by (simp add: mult_right_mono)
    then show ?thesis using x y same by (simp add: float64_def)
  next
    case False
    then have lt: "Ex + 1 \<le> Ey" using le by simp
    then have ey: "Ey = ilog2 y" and ge: "- 1022 \<le> ilog2 y"
      by (simp_all add: Ex_def Ey_def max_def split: if_splits)
    have "float64 x \<le> 2 powi (Ex + 1)" using float64_upper [OF x] by (simp add: Ex_def)
    also have "\<dots> \<le> 2 powi Ey" using lt by (intro power_int_increasing) simp_all
    also have "\<dots> \<le> float64 y" using float64_lower [OF y ge] ey by simp
    finally show ?thesis .
  qed
qed

lemma float64_exact:
  assumes "0 < m" and "m < 2 ^ 53" and "- 1074 \<le> k"
  shows "float64 (of_int m * 2 powi k) = of_int m * 2 powi k"
proof -
  define x :: rat where "x = of_int m * 2 powi k"
  have x: "0 < x" using assms(1) by (simp add: x_def)
  define E where "E = max (ilog2 x) (- 1022)"
  define u where "u = ulp x"
  have u: "u = 2 powi (E - 52)" using x by (simp add: u_def ulp_def E_def)
  have f: "float64 x = of_int (round_half_even (x / u)) * u"
    using x by (simp add: float64_def u_def)
  have "(of_int m :: rat) < of_int (2 ^ 53)" using assms(2) by (simp only: of_int_less_iff)
  then have "x < 2 ^ 53 * 2 powi k" by (simp add: x_def)
  also have "\<dots> = 2 powi (k + 53)"
    using power_int_add [of "2::rat" 53 k] by (simp add: add.commute)
  finally have "x < 2 powi (k + 53)" .
  moreover have "2 powi (ilog2 x) \<le> x" using ilog2_bounds [OF x] by simp
  ultimately have "(2::rat) powi (ilog2 x) < 2 powi (k + 53)" by linarith
  then have "ilog2 x < k + 53"
    by (metis not_less power_int_increasing one_le_numeral)
  then have j: "0 \<le> k + 52 - E" using assms(3) by (simp add: E_def)
  define j where "j = nat (k + 52 - E)"
  have "(2::rat) powi k = 2 powi (int j + (E - 52))" using j by (simp add: j_def)
  also have "\<dots> = 2 ^ j * 2 powi (E - 52)"
    using power_int_add [of "2::rat" "int j" "E - 52"] by simp
  finally have k: "(2::rat) powi k = 2 ^ j * u" using u by simp
  have upos: "0 < u" by (simp add: u)
  have xu: "x = of_int (m * 2 ^ j) * u" by (simp add: x_def k)
  then have "x / u = of_int (m * 2 ^ j)" using upos by simp
  then have "round_half_even (x / u) = m * 2 ^ j" by (simp only: rhe_of_int)
  then have "float64 x = x" using f xu by simp
  then show ?thesis by (simp add: x_def)
qed

lemma float64_int:
  assumes "0 \<le> n" and "n < 2 ^ 53"
  shows "float64 (of_int n) = of_int n"
proof (cases "n = 0")
  case True
  then show ?thesis by simp
next
  case False
  then show ?thesis using float64_exact [of n 0] assms by simp
qed

lemma float64_le_int:
  assumes "0 \<le> x" and "x \<le> of_int n" and "n < 2 ^ 53"
  shows "float64 x \<le> of_int n"
proof -
  have "0 \<le> n" using assms(1,2) by (metis of_int_0_le_iff order_trans)
  then show ?thesis using float64_mono [OF assms(1,2)] float64_int [of n] assms(3) by simp
qed

lemma float64_ge_int:
  assumes "0 \<le> n" and "of_int n \<le> x" and "n < 2 ^ 53"
  shows "of_int n \<le> float64 x"
  using float64_mono [of "of_int n" x] float64_int [of n] assms by simp

lemma digit_char_props:
  assumes "n < 10"
  shows "is_digit (digit_char n)" and "digit_val (digit_char n) = n"
  using assms by (simp_all add: is_digit_def digit_val_def digit_char_def)

lemma nat_of_digits_snoc:
  "nat_of_digits (cs @ [c]) = 10 * nat_of_digits cs + digit_val c"
  by (simp add: nat_of_digits_def)

lemma decimal_props:
  "list_all is_digit (decimal n) \<and> nat_of_digits (decimal n) = n \<and> decimal n \<noteq> []"
proof (induction n rule: decimal.induct)
  case (1 n)
  show ?case
  proof (cases "n < 10")
    case True
    then show ?thesis
      by (subst (1 2 3) decimal.simps) (simp add: digit_char_props nat_of_digits_def)
  next
    case False
    have m: "n mod 10 < 10" by simp
    show ?thesis
      using False 1 digit_char_props [OF m]
      by (subst (1 2 3) decimal.simps) (simp add: nat_of_digits_snoc)
  qed
qed

lemma Sprintf_2f_shape:
  assumes "0 \<le> x"
  shows "two_decimals (Sprintf_2f x) \<and>
         fixed_value (Sprintf_2f x) = of_int (round_half_even (x * 100)) / 100"
proof -
  define n where "n = nat (round_half_even (x * 100))"
  have "0 \<le> round_half_even (x * 100)"
    using rhe_ge_int [of 0 "x * 100"] assms by simp
  then have n: "of_int (round_half_even (x * 100)) = (of_nat n :: rat)"
    by (simp add: n_def)
  define ip where "ip = decimal (n div 100)"
  define a where "a = digit_char (n mod 100 div 10)"
  define b where "b = digit_char (n mod 10)"
  have s: "Sprintf_2f x = ip @ CHR ''.'' # [a, b]"
    using assms by (simp add: Sprintf_2f_def Let_def n_def ip_def a_def b_def)
  have ip: "list_all is_digit ip" "nat_of_digits ip = n div 100" "ip \<noteq> []"
    using decimal_props [of "n div 100"] by (simp_all add: ip_def)
  have d1: "n mod 100 div 10 < 10" by (simp add: less_mult_imp_div_less)
  have d2: "n mod 10 < 10" by simp
  have a: "is_digit a" "digit_val a = n mod 100 div 10"
    using digit_char_props [OF d1] by (simp_all add: a_def)
  have b: "is_digit b" "digit_val b = n mod 10"
    using digit_char_props [OF d2] by (simp_all add: b_def)
  have len: "length (Sprintf_2f x) = length ip + 3" by (simp add: s)
  have tk: "take (length (Sprintf_2f x) - 3) (Sprintf_2f x) = ip" by (simp add: s)
  have dr: "drop (length (Sprintf_2f x) - 2) (Sprintf_2f x) = [a, b]" by (simp add: s)
  have pt: "Sprintf_2f x ! (length (Sprintf_2f x) - 3) = CHR ''.''"
    by (simp add: s nth_append)
  have l1: "1 \<le> length ip" using ip(3) by (cases ip) simp_all
  have two: "two_decimals (Sprintf_2f x)"
    unfolding two_decimals_def tk dr pt using ip(1) a(1) b(1) l1 by (simp add: len)
  have fr: "nat_of_digits [a, b] = n mod 100"
  proof -
    have "nat_of_digits [a, b] = 10 * (n mod 100 div 10) + n mod 10"
      by (simp add: nat_of_digits_def a b)
    also have "n mod 10 = n mod 100 mod 10" by (simp add: mod_mod_cancel)
    finally show ?thesis by simp
  qed
  have "(of_nat n :: rat) = of_nat (n div 100 * 100 + n mod 100)"
    by (simp only: div_mult_mod_eq)
  also have "\<dots> = of_nat (n div 100) * 100 + of_nat (n mod 100)"
    by (simp only: of_nat_add of_nat_mult of_nat_numeral)
  finally have e: "(of_nat n :: rat) = of_nat (n div 100) * 100 + of_nat (n mod 100)" .
  have "fixed_value (Sprintf_2f x) = of_nat (n div 100) + of_nat (n mod 100) / 100"
    unfolding fixed_value_def tk dr by (simp add: ip fr)
  also have "\<dots> = (of_nat (n div 100) * 100 + of_nat (n mod 100)) / 100"
    by (simp add: field_simps)
  also have "\<dots> = of_nat n / 100" by (simp only: e)
  finally show ?thesis using two n by simp
qed

lemma Sprintf_2f_range:
  assumes "0 \<le> lo" and "of_int lo \<le> x" and "x \<le> of_int hi"
  shows "two_decimals (Sprintf_2f x) \<and> of_int lo \<le> fixed_value (Sprintf_2f x) \<and>
         fixed_value (Sprintf_2f x) \<le> of_int hi"
proof -
  have x: "0 \<le> x" using assms(1,2) by (metis of_int_0_le_iff order_trans)
  have "of_int (lo * 100) \<le> x * 100" using assms(2) by simp
  then have l: "lo * 100 \<le> round_half_even (x * 100)" by (rule rhe_ge_int)
  have "x * 100 \<le> of_int (hi * 100)" using assms(3) by simp
  then have h: "round_half_even (x * 100) \<le> hi * 100" by (rule rhe_le_int)
  have "(of_int (lo * 100) :: rat) \<le> of_int (round_half_even (x * 100))"
    using l by (simp only: of_int_le_iff)
  moreover have "(of_int (round_half_even (x * 100)) :: rat) \<le> of_int (hi * 100)"
    using h by (simp only: of_int_le_iff)
  ultimately show ?thesis using Sprintf_2f_shape [OF x] by simp
qed

text \<open>\<open>start + rand.Float64() * width\<close> in float64 stays between \<open>start\<close> and
  \<open>start + width\<close>, both ends included.\<close>

lemma scaled_range:
  assumes "0 \<le> r" and "r < 1" and "0 \<le> start" and "0 \<le> width" and "start + width < 2 ^ 53"
  shows "of_int start \<le> fadd (of_int start) (fmul r (of_int width)) \<and>
         fadd (of_int start) (fmul r (of_int width)) \<le> of_int (start + width)"
proof -
  have sp: "width < 2 ^ 53" using assms by linarith
  have "0 \<le> r * of_int width" using assms by simp
  moreover have "r * of_int width \<le> of_int width"
    using assms by (simp add: mult_left_le_one_le)
  ultimately have m: "0 \<le> fmul r (of_int width) \<and> fmul r (of_int width) \<le> of_int width"
    unfolding fmul_def using float64_nonneg float64_le_int [OF _ _ sp] by blast
  have lo: "of_int start \<le> of_int start + fmul r (of_int width)" using m by simp
  have hi: "of_int start + fmul r (of_int width) \<le> of_int (start + width)" using m by simp
  have nn: "0 \<le> of_int start + fmul r (of_int width)" using m assms(3) by simp
  have b: "start < 2 ^ 53" using assms by linarith
  show ?thesis
    unfolding fadd_def
    using float64_ge_int [OF assms(3) lo b] float64_le_int [OF nn hi assms(5)] by blast
qed

lemma fmul_range:
  assumes "0 \<le> r" and "r < 1" and "0 \<le> width" and "width < 2 ^ 53"
  shows "0 \<le> fmul r (of_int width) \<and> fmul r (of_int width) \<le> of_int width"
proof -
  have "0 \<le> r * of_int width" using assms by simp
  moreover have "r * of_int width \<le> of_int width"
    using assms by (simp add: mult_left_le_one_le)
  ultimately show ?thesis
    unfolding fmul_def using float64_nonneg float64_le_int [OF _ _ assms(4)] by blast
qed

lemma rhe_eq:
  assumes "of_int n - 1 / 2 < x" and "x < of_int n + 1 / 2"
  shows "round_half_even x = n"
proof -
  have f: "of_int \<lfloor>x\<rfloor> \<le> x" "x < of_int \<lfloor>x\<rfloor> + 1" by linarith+
  have "\<lfloor>x\<rfloor> = n \<or> \<lfloor>x\<rfloor> = n - 1"
  proof -
    have "of_int n - 1 < x" using assms(1) by linarith
    then have "n - 1 \<le> \<lfloor>x\<rfloor>" by (metis floor_mono floor_of_int less_imp_le of_int_1 of_int_diff)
    moreover have "x < of_int (n + 1)" using assms(2) by simp
    then have "\<lfloor>x\<rfloor> < n + 1" by (simp only: floor_less_iff)
    ultimately show ?thesis by linarith
  qed
  then show ?thesis
  proof
    assume e: "\<lfloor>x\<rfloor> = n"
    then have "x - of_int \<lfloor>x\<rfloor> < 1 / 2" using assms(2) by simp
    then show ?thesis using e by (simp add: round_half_even_def Let_def)
  next
    assume e: "\<lfloor>x\<rfloor> = n - 1"
    then have "1 / 2 < x - of_int \<lfloor>x\<rfloor>" using assms(1) by simp
    then show ?thesis using e by (simp add: round_half_even_def Let_def)
  qed
qed

lemma digit_char_simps:
  "digit_char 0 = CHR ''0''" "digit_char 1 = CHR ''1''" "digit_char 2 = CHR ''2''"
  "digit_char 3 = CHR ''3''" "digit_char 4 = CHR ''4''" "digit_char 5 = CHR ''5''"
  "digit_char 6 = CHR ''6''" "digit_char 7 = CHR ''7''" "digit_char 8 = CHR ''8''"
  "digit_char 9 = CHR ''9''"
  by (simp_all add: digit_char_def char_of_def bit_Suc_0_iff)

lemma Sprintf_2f_eval:
  assumes "0 \<le> x" and "round_half_even (x * 100) = int n"
  shows "Sprintf_2f x = decimal (n div 100) @ ''.'' @
           [digit_char (n mod 100 div 10), digit_char (n mod 10)]"
  using assms by (simp add: Sprintf_2f_def Let_def)

lemma fmt_b: "Sprintf_2f (143345 / 4096) = ''35.00''"
proof -
  have "round_half_even (143345 / 4096 * 100) = int 3500"
    by (rule rhe_eq) simp_all
  then show ?thesis
    using Sprintf_2f_eval [of "143345 / 4096" 3500]
    by (simp add: decimal.simps digit_char_simps)
qed

lemma fmt_c: "Sprintf_2f 50 = ''50.00''"
proof -
  have "round_half_even (50 * 100) = int 5000"
    by (rule rhe_eq) simp_all
  then show ?thesis
    using Sprintf_2f_eval [of "50" 5000]
    by (simp add: decimal.simps digit_char_simps)
qed

lemma fx: "fixed_value ''35.00'' = 35" "two_decimals ''35.00''"
  by (simp_all add: fixed_value_def two_decimals_def nat_of_digits_def digit_val_def is_digit_def)

lemma generateReading_Value:
  "Value (generateReading d env) =
     (if deviceType d = ''temperature'' then Sprintf_2f (fadd 20 (fmul (rand_Float64 env) 15))
      else if deviceType d = ''humidity'' then Sprintf_2f (fadd 30 (fmul (rand_Float64 env) 40))
      else if deviceType d = ''pressure'' then Sprintf_2f (fadd 1013 (fmul (rand_Float64 env) 20))
      else Sprintf_2f (fmul (rand_Float64 env) 100))"
  by (simp add: generateReading_def NewSimpleReading_def Let_def)

lemma generateReading_Units:
  "Units (generateReading d env) =
     (if deviceType d = ''temperature'' then ''Celsius''
      else if deviceType d = ''humidity'' then ''Percent''
      else if deviceType d = ''pressure'' then ''hPa''
      else ''Units'')"
  by (simp add: generateReading_def NewSimpleReading_def Let_def)

lemma exact_a: "float64 (61425 / 4096) = 61425 / 4096"
  using float64_exact [of 61425 "- 12"] by simp

lemma exact_b: "float64 (143345 / 4096) = 143345 / 4096"
  using float64_exact [of 143345 "- 12"] by simp

lemma exact_r: "float64 (4095 / 4096) = 4095 / 4096"
  using float64_exact [of 4095 "- 12"] by simp

lemma ilog2_eq:
  assumes "2 powi e \<le> x" and "x < 2 powi (e + 1)"
  shows "ilog2 x = e"
proof -
  have x: "0 < x" using assms(1) by (metis less_le_trans zero_less_numeral zero_less_power_int)
  have b: "2 powi (ilog2 x) \<le> x" "x < 2 powi (ilog2 x + 1)"
    using ilog2_bounds [OF x] by simp_all
  have "(2::rat) powi e < 2 powi (ilog2 x + 1)" using assms(1) b(2) by linarith
  then have 1: "e < ilog2 x + 1" by (metis not_less power_int_increasing one_le_numeral)
  have "(2::rat) powi (ilog2 x) < 2 powi (e + 1)" using assms(2) b(1) by linarith
  then have 2: "ilog2 x < e + 1" by (metis not_less power_int_increasing one_le_numeral)
  show ?thesis using 1 2 by linarith
qed

lemma float64_eval:
  assumes "2 powi e \<le> x" and "x < 2 powi (e + 1)" and "- 1022 \<le> e"
    and "of_int n - 1 / 2 < x / 2 powi (e - 52)" and "x / 2 powi (e - 52) < of_int n + 1 / 2"
  shows "float64 x = of_int n * 2 powi (e - 52)"
proof -
  have x: "0 < x" using assms(1) by (metis less_le_trans zero_less_numeral zero_less_power_int)
  have "ilog2 \<bar>x\<bar> = e" using ilog2_eq [OF assms(1,2)] x by simp
  then have u: "ulp x = 2 powi (e - 52)" using assms(3) by (simp add: ulp_def)
  have "round_half_even (x / 2 powi (e - 52)) = n" by (rule rhe_eq [OF assms(4,5)])
  then show ?thesis using x by (simp add: float64_def u)
qed

text \<open>
  With \<open>rand.Float64()\<close> at the largest float64 below 1, the two roundings of
  \<open>20.0 + r*15.0\<close> give exactly 35.
\<close>
lemma float64_sum_reaches_upper_end:
  "fadd 20 (fmul (9007199254740991 / 9007199254740992) 15) = 35"
proof -
  have a: "float64 (9007199254740991 / 9007199254740992 * 15) =
           of_int 8444249301319679 * 2 powi (3 - 52)"
    by (rule float64_eval) (simp_all add: power_int_def power_divide)
  have b: "float64 (20 + of_int 8444249301319679 * 2 powi (3 - 52)) =
           of_int 4925812092436480 * 2 powi (5 - 52)"
    by (rule float64_eval) (simp_all add: power_int_def power_divide)
  show ?thesis
    unfolding fadd_def fmul_def a b by (simp add: power_int_def power_divide)
qed

section \<open>Stopping a loop\<close>

lemma started_fields:
  "virtualDevices started = [''t'' \<mapsto> 0, ''h'' \<mapsto> 1, ''p'' \<mapsto> 2]"
  "stopChannels started = [''t'' \<mapsto> 0]"
  "goroutines started = [\<lparr>device = 0, loc = LoopHead\<rparr>]"
  "closedChans started = {}"
  "published started = []"
  "IsRunning (heap started 0)"
  "Id' (heap started 0) = ''t''"
  "Name (heap started 0) = ''Virtual-Temperature-Sensor-01''"
  by (simp_all add: started_def startDevice_def new_registry new_heap new_rest defaultDevice_def)

lemma started_steps:
  "loop_step started 0 EnterSelect = Some selecting"
  "loop_step selecting 0 TickerFired = Some publishing"
  by (simp_all add: loop_step_def selecting_def publishing_def started_fields)

lemma reachable_publishing: "reachable publishing"
proof -
  have "reachable started" unfolding started_def by (rule reachable.start [OF reachable.new])
  then have "reachable selecting" by (rule reachable.loop [OF _ started_steps(1)])
  then show ?thesis by (rule reachable.loop [OF _ started_steps(2)])
qed

lemma publishing_fields:
  "virtualDevices publishing = [''t'' \<mapsto> 0, ''h'' \<mapsto> 1, ''p'' \<mapsto> 2]"
  "stopChannels publishing = [''t'' \<mapsto> 0]"
  "goroutines publishing = [\<lparr>device = 0, loc = Publishing\<rparr>]"
  "closedChans publishing = {}"
  "published publishing = []"
  "heap publishing = heap started"
  by (simp_all add: publishing_def started_fields)

lemma reachable_selecting: "reachable selecting"
proof -
  have "reachable started" unfolding started_def by (rule reachable.start [OF reachable.new])
  then show ?thesis by (rule reachable.loop [OF _ started_steps(1)])
qed

lemma stop_running:
  assumes "virtualDevices s k = Some p" and "IsRunning (heap s p)"
    and "stopChannels s k = Some c" and "c \<notin> closedChans s"
  shows "stopDevice s k =
           (s\<lparr>heap := (heap s)(p := (heap s p)\<lparr>IsRunning := False\<rparr>),
              closedChans := insert c (closedChans s),
              stopChannels := (stopChannels s)(k := None)\<rparr>,
            Response StatusOK (Message ''Virtual device stopped successfully''))"
  using assms by (simp add: stopDevice_def close_chan_def Let_def)

lemma delete_running:
  assumes "virtualDevices s k = Some p" and "IsRunning (heap s p)"
    and "stopChannels s k = Some c" and "c \<notin> closedChans s"
  shows "deleteVirtualDevice s k =
           (s\<lparr>closedChans := insert c (closedChans s),
              stopChannels := (stopChannels s)(k := None),
              virtualDevices := (virtualDevices s)(k := None)\<rparr>,
            Response StatusOK (Message ''Virtual device deleted successfully''))"
  using assms by (simp add: deleteVirtualDevice_def close_chan_def)

lemma stopped_enabled:
  assumes "i < length (goroutines s)" and "loc (goroutines s ! i) = Select (Some c)"
    and "c \<in> closedChans s"
  shows "\<exists>s'. loop_step s i Stopped = Some s' \<and> loc (goroutines s' ! i) = Returned"
  using assms by (simp add: loop_step_def Let_def)

text \<open>In a reachable state neither stop nor delete panics.\<close>
lemma reachable_no_panic:
  assumes "reachable s"
  shows "snd (stopDevice s k) \<noteq> Panic msg \<and> snd (deleteVirtualDevice s k) \<noteq> Panic msg"
proof (cases "virtualDevices s k")
  case None
  then show ?thesis by (simp add: stopDevice_def deleteVirtualDevice_def)
next
  case (Some p)
  show ?thesis
  proof (cases "IsRunning (heap s p)")
    case True
    obtain c where c: "stopChannels s k = Some c" "c \<notin> closedChans s"
      using close_running [OF reachable_inv [OF assms] Some True] .
    show ?thesis
      by (simp add: stop_running [OF Some True c] delete_running [OF Some True c])
  next
    case False
    then show ?thesis using Some by (simp add: stopDevice_def deleteVirtualDevice_def)
  qed
qed

text \<open>
  A loop that is not in its \<open>select\<close> when the stop channel is closed finds no entry
  in the map when it comes back, waits on the nil channel, and cannot take the stop
  case any more.
\<close>
lemma nil_channel_never_stops:
  assumes "i < length (goroutines s)" and "loc (goroutines s ! i) = Select None"
  shows "loop_step s i Stopped = None"
  using assms by (simp add: loop_step_def Let_def)

lemma loop_misses_stop:
  "\<exists>s1 s2. loop_step (fst (stopDevice publishing ''t'')) 0 (Publish env0) = Some s1 \<and>
     loop_step s1 0 EnterSelect = Some s2 \<and> loc (goroutines s2 ! 0) = Select None"
  by (simp add: stopDevice_def close_chan_def Let_def loop_step_def publishSensorReading_def
      publishing_fields started_fields)

section \<open>Calls during which no read of the map is caught, and calls that are killed\<close>

lemma caught_goroutines:
  "goroutines s' = goroutines s \<Longrightarrow> caught s' readers = caught s readers"
  by (simp add: caught_def)

lemma caught_Nil [simp]: "\<not> caught s []"
  by (simp add: caught_def)

lemma stopDevice_during_quiet:
  assumes "\<not> caught s readers"
  shows "stopDevice_during s k readers = Done (fst (stopDevice s k)) (snd (stopDevice s k))"
proof -
  have c: "\<not> caught (s\<lparr>heap := h, closedChans := cl\<rparr>) readers" for h cl
    using assms by (simp add: caught_def)
  show ?thesis
    by (simp add: stopDevice_during_def stopDevice_def close_chan_def Let_def c
        split: option.splits)
qed

lemma deleteVirtualDevice_during_quiet:
  assumes "\<not> caught s readers"
  shows "deleteVirtualDevice_during s k readers =
           Done (fst (deleteVirtualDevice s k)) (snd (deleteVirtualDevice s k))"
proof -
  have c: "\<not> caught (s\<lparr>closedChans := cl\<rparr>) readers" for cl
    using assms by (simp add: caught_def)
  show ?thesis
    by (simp add: deleteVirtualDevice_during_def deleteVirtualDevice_def close_chan_def c
        split: option.splits)
qed

lemma startDevice_during_quiet:
  assumes "\<not> caught s readers"
  shows "startDevice_during s k readers = Done (fst (startDevice s k)) (snd (startDevice s k))"
  using assms by (simp add: startDevice_during_def startDevice_def split: option.splits)

lemma startDataGeneration_during_quiet:
  "startDataGeneration_during s ks (\<lambda>k. []) = Done (startDataGeneration s ks) ()"
  by (induction ks arbitrary: s) (simp_all split: option.splits)

lemma Initialize_during_quiet:
  "Initialize_during s ks (\<lambda>k. []) = Done (fst (Initialize s ks)) True"
  by (simp add: Initialize_during_def Initialize_def startDataGeneration_during_quiet)

lemma stop_delete_fatal_when_caught:
  assumes "reachable s" and "virtualDevices s k = Some p" and "IsRunning (heap s p)"
    and "caught s readers"
  shows "stopDevice_during s k readers = Fatal map_fault \<and>
         deleteVirtualDevice_during s k readers = Fatal map_fault"
proof -
  obtain c where c: "stopChannels s k = Some c" "c \<notin> closedChans s"
    using close_running [OF reachable_inv [OF assms(1)] assms(2,3)] .
  have q: "caught (s\<lparr>heap := h, closedChans := cl\<rparr>) readers"
    "caught (s\<lparr>closedChans := cl\<rparr>) readers" for h cl
    using assms(4) by (simp_all add: caught_def)
  show ?thesis
    using assms(2,3) c
    by (simp add: stopDevice_during_def deleteVirtualDevice_during_def close_chan_def Let_def q)
qed

lemma step_closed_mono:
  assumes "step s t"
  shows "closedChans s \<subseteq> closedChans t"
  using assms
proof (cases rule: step.cases)
  case (initialize ks)
  have "closedChans (startDataGeneration s ks) = closedChans s" for s
    by (induction ks arbitrary: s) (simp_all split: option.splits)
  then show ?thesis using initialize by (simp add: Initialize_def)
next
  case (create u decoded)
  then show ?thesis by (simp add: createVirtualDevice_def Let_def split: option.splits)
next
  case (get id')
  then show ?thesis by (simp add: getVirtualDevice_def split: option.splits)
next
  case (update id' decoded)
  then show ?thesis by (simp add: updateVirtualDevice_def split: option.splits)
next
  case (delete id')
  then show ?thesis
    by (auto simp: deleteVirtualDevice_def close_chan_def split: option.splits if_splits)
next
  case (start id')
  then show ?thesis by (simp add: startDevice_def split: option.splits)
next
  case (stop id')
  then show ?thesis
    by (auto simp: stopDevice_def close_chan_def Let_def split: option.splits if_splits)
next
  case (loop i ev)
  then show ?thesis
    by (auto simp: loop_step_def publishSensorReading_def Let_def
        split: if_splits pc.splits loop_event.splits option.splits)
qed

lemma later_closed_mono:
  assumes "rtranclp step s t"
  shows "closedChans s \<subseteq> closedChans t"
  using assms by (induction rule: rtranclp_induct) (auto dest: step_closed_mono)

lemma publish_enabled:
  assumes "i < length (goroutines s)" and "loc (goroutines s ! i) = Publishing"
  shows "\<exists>t. loop_step s i (Publish env) = Some t \<and>
           published t = published s @ [generateReading (heap s (device (goroutines s ! i))) env]"
  using assms by (simp add: loop_step_def publishSensorReading_def Let_def)

section \<open>No-op start and stop, and the bootstrap without a caught read\<close>

text \<open>
  In a reachable state, start on a running device changes nothing, answers 200 and
  the device has its stop channel; stop on a stopped device changes nothing, answers
  200 and the device has no stop channel.
\<close>
lemma noop_start_stop:
  assumes "reachable s" and "virtualDevices s id' = Some p"
  shows "if IsRunning (heap s p)
         then startDevice s id' =
                (s, Response StatusOK (Message ''Virtual device started successfully'')) \<and>
              (\<exists>c. stopChannels s id' = Some c)
         else stopDevice s id' =
                (s, Response StatusOK (Message ''Virtual device stopped successfully'')) \<and>
              stopChannels s id' = None"
proof -
  have h: "(stopChannels s id' \<noteq> None) = IsRunning (heap s p)"
    using reachable_inv [OF assms(1)] assms(2)
    unfolding service_inv_def handles_ok_def by simp
  show ?thesis
    using h assms(2) by (auto simp: startDevice_def stopDevice_def)
qed

text \<open>
  The constructor fills the registry with three devices of kinds temperature,
  humidity and pressure, none running; when no read is caught, \<open>Initialize\<close> keeps the
  registry, returns true, and leaves every device running with a stop channel and a
  goroutine at the head of its loop.
\<close>
lemma bootstrap_when_no_read_is_caught:
  assumes "distinct [u1, u2, u3]" and "distinct ks" and "set ks = {u1, u2, u3}"
  shows "virtualDevices (NewDeviceVirtualService u1 u2 u3) = [u1 \<mapsto> 0, u2 \<mapsto> 1, u3 \<mapsto> 2] \<and>
    deviceType (heap (NewDeviceVirtualService u1 u2 u3) 0) = ''temperature'' \<and>
    deviceType (heap (NewDeviceVirtualService u1 u2 u3) 1) = ''humidity'' \<and>
    deviceType (heap (NewDeviceVirtualService u1 u2 u3) 2) = ''pressure'' \<and>
    (\<forall>p. \<not> IsRunning (heap (NewDeviceVirtualService u1 u2 u3) p)) \<and>
    stopChannels (NewDeviceVirtualService u1 u2 u3) = Map.empty \<and>
    goroutines (NewDeviceVirtualService u1 u2 u3) = [] \<and>
    snd (Initialize (NewDeviceVirtualService u1 u2 u3) ks) = True \<and>
    virtualDevices (fst (Initialize (NewDeviceVirtualService u1 u2 u3) ks)) =
      [u1 \<mapsto> 0, u2 \<mapsto> 1, u3 \<mapsto> 2] \<and>
    (\<forall>k p. virtualDevices (fst (Initialize (NewDeviceVirtualService u1 u2 u3) ks)) k = Some p \<longrightarrow>
       IsRunning (heap (fst (Initialize (NewDeviceVirtualService u1 u2 u3) ks)) p) \<and>
       stopChannels (fst (Initialize (NewDeviceVirtualService u1 u2 u3) ks)) k \<noteq> None \<and>
       \<lparr>device = p, loc = LoopHead\<rparr>
         \<in> set (goroutines (fst (Initialize (NewDeviceVirtualService u1 u2 u3) ks))))"
proof -
  let ?s0 = "NewDeviceVirtualService u1 u2 u3"
  let ?s1 = "fst (Initialize ?s0 ks)"
  have s1: "?s1 = startDataGeneration ?s0 ks" by (simp add: Initialize_def)
  have inv0: "service_inv ?s0" by (rule inv_new)
  have inv1: "service_inv ?s1" unfolding s1 by (rule inv_startDataGeneration [OF inv0])
  have notrun: "\<And>p. \<not> IsRunning (heap ?s0 p)" by (simp add: new_heap)
  have reg1: "virtualDevices ?s1 = virtualDevices ?s0" unfolding s1 by simp
  have run: "IsRunning (heap ?s1 p) \<and> stopChannels ?s1 k \<noteq> None \<and>
             \<lparr>device = p, loc = LoopHead\<rparr> \<in> set (goroutines ?s1)"
    if kp: "virtualDevices ?s1 k = Some p" for k p
  proof -
    have kp0: "virtualDevices ?s0 k = Some p" using kp reg1 by simp
    then have "k \<in> dom (virtualDevices ?s0)" by blast
    then have kin: "k \<in> set ks" using assms(3) by (auto simp: new_registry)
    have r: "IsRunning (heap ?s1 p)"
      unfolding s1 by (rule startDataGeneration_starts [OF kin kp0])
    have inj: "\<forall>j q. virtualDevices ?s0 j = Some q \<longrightarrow> (q = p) = (j = k)"
      using inv0 kp0 unfolding service_inv_def registry_ok_def by auto
    have g: "\<lparr>device = p, loc = LoopHead\<rparr> \<in> set (goroutines ?s1)"
      unfolding s1 by (rule startDataGeneration_spawns [OF kin kp0 notrun inj])
    have "stopChannels ?s1 k \<noteq> None"
      using inv1 kp r unfolding service_inv_def handles_ok_def by blast
    then show ?thesis using r g by blast
  qed
  show ?thesis
    using run reg1 notrun
    by (simp add: new_registry new_rest new_heap Initialize_def)
qed

section \<open>The runs in which a loop misses the stop\<close>

lemma the_step: "loop_step s i ev \<noteq> None \<Longrightarrow> loop_step s i ev = Some (the (loop_step s i ev))"
  by simp

lemma stopped_early_fields:
  "virtualDevices stopped_early = [''t'' \<mapsto> 0, ''h'' \<mapsto> 1, ''p'' \<mapsto> 2]"
  "stopChannels stopped_early = Map.empty"
  "goroutines stopped_early = [\<lparr>device = 0, loc = Publishing\<rparr>]"
  "closedChans stopped_early = {0}"
  "nextChan stopped_early = 1"
  "\<not> IsRunning (heap stopped_early 0)"
  "Id' (heap stopped_early 0) = ''t''"
  by (simp_all add: stopped_early_def stopDevice_def close_chan_def Let_def publishing_fields
      started_fields publishing_def started_def startDevice_def new_registry new_heap new_rest)

lemma deaf_steps:
  "loop_step stopped_early 0 (Publish env0) \<noteq> None"
  "loop_step (the (loop_step stopped_early 0 (Publish env0))) 0 EnterSelect \<noteq> None"
  by (simp_all add: loop_step_def publishSensorReading_def Let_def stopped_early_fields)

lemma deaf_fields:
  "virtualDevices deaf = [''t'' \<mapsto> 0, ''h'' \<mapsto> 1, ''p'' \<mapsto> 2]"
  "stopChannels deaf = Map.empty"
  "goroutines deaf = [\<lparr>device = 0, loc = Select None\<rparr>]"
  "closedChans deaf = {0}"
  "nextChan deaf = 1"
  "\<not> IsRunning (heap deaf 0)"
  "Id' (heap deaf 0) = ''t''"
  by (simp_all add: deaf_def loop_step_def publishSensorReading_def Let_def stopped_early_fields)

lemma reachable_deaf: "reachable deaf"
proof -
  have "reachable stopped_early"
    unfolding stopped_early_def by (rule reachable.stop [OF reachable_publishing])
  then have "reachable (the (loop_step stopped_early 0 (Publish env0)))"
    by (rule reachable.loop [OF _ the_step [OF deaf_steps(1)]])
  then show ?thesis
    unfolding deaf_def by (rule reachable.loop [OF _ the_step [OF deaf_steps(2)]])
qed

lemma restarted_fields:
  "virtualDevices (fst (startDevice deaf ''t'')) = [''t'' \<mapsto> 0, ''h'' \<mapsto> 1, ''p'' \<mapsto> 2]"
  "stopChannels (fst (startDevice deaf ''t'')) = [''t'' \<mapsto> 1]"
  "goroutines (fst (startDevice deaf ''t'')) =
     [\<lparr>device = 0, loc = Select None\<rparr>, \<lparr>device = 0, loc = LoopHead\<rparr>]"
  "closedChans (fst (startDevice deaf ''t'')) = {0}"
  "IsRunning (heap (fst (startDevice deaf ''t'')) 0)"
  "Id' (heap (fst (startDevice deaf ''t'')) 0) = ''t''"
  by (simp_all add: startDevice_def deaf_fields)

lemma doubled_step: "loop_step (fst (startDevice deaf ''t'')) 1 EnterSelect \<noteq> None"
  by (simp add: loop_step_def Let_def restarted_fields)

lemma doubled_fields:
  "virtualDevices doubled = [''t'' \<mapsto> 0, ''h'' \<mapsto> 1, ''p'' \<mapsto> 2]"
  "stopChannels doubled = [''t'' \<mapsto> 1]"
  "goroutines doubled =
     [\<lparr>device = 0, loc = Select None\<rparr>, \<lparr>device = 0, loc = Select (Some 1)\<rparr>]"
  "closedChans doubled = {0}"
  "IsRunning (heap doubled 0)"
  "Id' (heap doubled 0) = ''t''"
  by (simp_all add: doubled_def loop_step_def Let_def restarted_fields)

lemma reachable_doubled: "reachable doubled"
  unfolding doubled_def
  by (rule reachable.loop [OF reachable.start [OF reachable_deaf] the_step [OF doubled_step]])

lemma new_goroutine_heads:
  "caught (launch (NewDeviceVirtualService ''t'' ''h'' ''p'') ''t'' 0) [0]"
  by (simp add: caught_def new_rest)

section \<open>The claims\<close>

text \<open>
  C1. In every reachable state, so after every create, update, delete, start and stop,
  the ids that have a stop channel are exactly the ids whose record is in the registry
  with \<open>IsRunning\<close> set. Ids made by create are taken to be new to the registry.
\<close>
theorem C1_handles_match_running:
  assumes "reachable s"
  shows "dom (stopChannels s) =
         {k. \<exists>p. virtualDevices s k = Some p \<and> IsRunning (heap s p)}"
  using reachable_inv [OF assms] unfolding service_inv_def handles_ok_def by auto

theorem C1_witness:
  "reachable (fst (startDevice (NewDeviceVirtualService ''t'' ''h'' ''p'') ''t'')) \<and>
   dom (stopChannels (fst (startDevice (NewDeviceVirtualService ''t'' ''h'' ''p'') ''t''))) = {''t''} \<and>
   {k. \<exists>p. virtualDevices (fst (startDevice (NewDeviceVirtualService ''t'' ''h'' ''p'') ''t'')) k = Some p \<and>
        IsRunning (heap (fst (startDevice (NewDeviceVirtualService ''t'' ''h'' ''p'') ''t'')) p)} = {''t''}"
proof -
  let ?s = "fst (startDevice (NewDeviceVirtualService ''t'' ''h'' ''p'') ''t'')"
  have r: "reachable ?s" by (rule reachable.start [OF reachable.new])
  have d: "dom (stopChannels ?s) = {''t''}"
    by (simp add: startDevice_def NewDeviceVirtualService_def initializeDefaultDevices_def
        defaultDevice_def emptyService_def Let_def)
  show ?thesis using r d C1_handles_match_running [OF r] by simp
qed

text \<open>
  C2, as stated, fails: stop and delete return while the loop of the device is still
  there. In the run below the ticker case has been chosen when the handler runs, and
  no read of the map falls into the call; the handler answers 200, nothing has been
  published yet, and the goroutine then publishes a reading of the device.
\<close>
theorem C2_counterexample:
  "reachable publishing \<and>
   virtualDevices publishing ''t'' = Some 0 \<and> IsRunning (heap publishing 0) \<and>
   stopDevice_during publishing ''t'' [0] =
     Done (fst (stopDevice publishing ''t''))
       (Response StatusOK (Message ''Virtual device stopped successfully'')) \<and>
   published (fst (stopDevice publishing ''t'')) = [] \<and>
   goroutines (fst (stopDevice publishing ''t'')) = [\<lparr>device = 0, loc = Publishing\<rparr>] \<and>
   loop_step (fst (stopDevice publishing ''t'')) 0 (Publish env0) \<noteq> None \<and>
   map DeviceName (published (the (loop_step (fst (stopDevice publishing ''t'')) 0 (Publish env0)))) =
     [''Virtual-Temperature-Sensor-01''] \<and>
   deleteVirtualDevice_during publishing ''t'' [0] =
     Done (fst (deleteVirtualDevice publishing ''t''))
       (Response StatusOK (Message ''Virtual device deleted successfully'')) \<and>
   published (fst (deleteVirtualDevice publishing ''t'')) = [] \<and>
   goroutines (fst (deleteVirtualDevice publishing ''t'')) = [\<lparr>device = 0, loc = Publishing\<rparr>] \<and>
   loop_step (fst (deleteVirtualDevice publishing ''t'')) 0 (Publish env0) \<noteq> None \<and>
   map DeviceName (published (the (loop_step (fst (deleteVirtualDevice publishing ''t'')) 0 (Publish env0)))) =
     [''Virtual-Temperature-Sensor-01'']"
proof -
  have n: "DeviceName (generateReading d env) = Name d" for d env
    by (simp add: generateReading_def NewSimpleReading_def Let_def split: prod.splits)
  have q: "\<not> caught publishing [0]"
    by (simp add: caught_def publishing_fields)
  have st: "stopDevice publishing ''t'' =
      (publishing\<lparr>heap := (heap started)(0 := (heap started 0)\<lparr>IsRunning := False\<rparr>),
                  closedChans := {0}, stopChannels := Map.empty\<rparr>,
       Response StatusOK (Message ''Virtual device stopped successfully''))"
    by (simp add: stopDevice_def close_chan_def publishing_fields started_fields Let_def)
  have de: "deleteVirtualDevice publishing ''t'' =
      (publishing\<lparr>closedChans := {0}, stopChannels := Map.empty,
                  virtualDevices := [''h'' \<mapsto> 1, ''p'' \<mapsto> 2]\<rparr>,
       Response StatusOK (Message ''Virtual device deleted successfully''))"
    by (simp add: deleteVirtualDevice_def close_chan_def publishing_fields started_fields
        fun_upd_twist)
  show ?thesis
    unfolding stopDevice_during_quiet [OF q] deleteVirtualDevice_during_quiet [OF q] st de
    using reachable_publishing
    by (simp add: loop_step_def publishSensorReading_def publishing_fields started_fields n)
qed

text \<open>
  C2, amended. Stop and delete of a running device do not wait for its loop. In a
  reachable state, when no read of the stop-channel map is caught inside the write of
  the call, they close the stop channel of the device, remove it from the map and
  answer 200, with every goroutine where it was and nothing published during the
  call. In the state after the call and in every later state, a loop that is in its
  \<open>select\<close> on that channel can take the stop case and return; and a loop that had
  taken its ticker case before the call publishes its reading after the call has
  returned.
\<close>
theorem C2_stop_delete_do_not_wait:
  assumes "reachable s" and "virtualDevices s id' = Some p" and "IsRunning (heap s p)"
    and "\<not> caught s readers"
  shows "\<exists>c s1 s2. stopChannels s id' = Some c \<and> c \<notin> closedChans s \<and>
    stopDevice_during s id' readers =
      Done s1 (Response StatusOK (Message ''Virtual device stopped successfully'')) \<and>
    deleteVirtualDevice_during s id' readers =
      Done s2 (Response StatusOK (Message ''Virtual device deleted successfully'')) \<and>
    goroutines s1 = goroutines s \<and> published s1 = published s \<and>
    c \<in> closedChans s1 \<and> stopChannels s1 id' = None \<and>
    goroutines s2 = goroutines s \<and> published s2 = published s \<and>
    c \<in> closedChans s2 \<and> stopChannels s2 id' = None \<and>
    (\<forall>t i. (rtranclp step s1 t \<or> rtranclp step s2 t) \<and>
        i < length (goroutines t) \<and> loc (goroutines t ! i) = Select (Some c) \<longrightarrow>
        (\<exists>t'. loop_step t i Stopped = Some t' \<and> loc (goroutines t' ! i) = Returned)) \<and>
    (\<forall>i env. i < length (goroutines s) \<and> loc (goroutines s ! i) = Publishing \<longrightarrow>
        (\<exists>t. loop_step s1 i (Publish env) = Some t \<and>
             published t =
               published s @ [generateReading (heap s1 (device (goroutines s ! i))) env]) \<and>
        (\<exists>t. loop_step s2 i (Publish env) = Some t \<and>
             published t =
               published s @ [generateReading (heap s2 (device (goroutines s ! i))) env]))"
proof -
  obtain c where c: "stopChannels s id' = Some c" "c \<notin> closedChans s"
    using close_running [OF reachable_inv [OF assms(1)] assms(2,3)] .
  define s1 where "s1 = fst (stopDevice s id')"
  define s2 where "s2 = fst (deleteVirtualDevice s id')"
  note st = stop_running [OF assms(2,3) c]
  note de = delete_running [OF assms(2,3) c]
  have r1: "stopDevice_during s id' readers =
      Done s1 (Response StatusOK (Message ''Virtual device stopped successfully''))"
    unfolding stopDevice_during_quiet [OF assms(4)] s1_def by (simp add: st)
  have r2: "deleteVirtualDevice_during s id' readers =
      Done s2 (Response StatusOK (Message ''Virtual device deleted successfully''))"
    unfolding deleteVirtualDevice_during_quiet [OF assms(4)] s2_def by (simp add: de)
  have f1: "goroutines s1 = goroutines s" "published s1 = published s"
    "c \<in> closedChans s1" "stopChannels s1 id' = None"
    by (simp_all add: s1_def st)
  have f2: "goroutines s2 = goroutines s" "published s2 = published s"
    "c \<in> closedChans s2" "stopChannels s2 id' = None"
    by (simp_all add: s2_def de)
  have later: "\<exists>t'. loop_step t i Stopped = Some t' \<and> loc (goroutines t' ! i) = Returned"
    if "(rtranclp step s1 t \<or> rtranclp step s2 t) \<and>
        i < length (goroutines t) \<and> loc (goroutines t ! i) = Select (Some c)" for t i
  proof -
    have "c \<in> closedChans t"
      using that f1(3) f2(3) later_closed_mono [of s1 t] later_closed_mono [of s2 t] by blast
    then show ?thesis using that by (intro stopped_enabled [where c = c]) simp_all
  qed
  have pub: "(\<exists>t. loop_step s1 i (Publish env) = Some t \<and>
               published t =
                 published s @ [generateReading (heap s1 (device (goroutines s ! i))) env]) \<and>
             (\<exists>t. loop_step s2 i (Publish env) = Some t \<and>
               published t =
                 published s @ [generateReading (heap s2 (device (goroutines s ! i))) env])"
    if "i < length (goroutines s) \<and> loc (goroutines s ! i) = Publishing" for i env
    using that publish_enabled [of i s1 env] publish_enabled [of i s2 env]
    by (simp add: f1 f2)
  show ?thesis
    using c r1 r2 f1 f2 later pub by blast
qed

theorem C2_witness:
  "reachable selecting \<and> virtualDevices selecting ''t'' = Some 0 \<and>
   IsRunning (heap selecting 0) \<and> \<not> caught selecting [0] \<and>
   stopChannels selecting ''t'' = Some 0 \<and>
   goroutines selecting = [\<lparr>device = 0, loc = Select (Some 0)\<rparr>] \<and>
   (\<exists>s1. stopDevice_during selecting ''t'' [0] =
            Done s1 (Response StatusOK (Message ''Virtual device stopped successfully'')) \<and>
         goroutines s1 = goroutines selecting \<and> 0 \<in> closedChans s1 \<and>
         (\<exists>t'. loop_step s1 0 Stopped = Some t' \<and> loc (goroutines t' ! 0) = Returned))"
proof -
  have v: "virtualDevices selecting ''t'' = Some 0" and r: "IsRunning (heap selecting 0)"
    and c: "stopChannels selecting ''t'' = Some 0"
    and g: "goroutines selecting = [\<lparr>device = 0, loc = Select (Some 0)\<rparr>]"
    by (simp_all add: selecting_def started_fields)
  have q: "\<not> caught selecting [0]" by (simp add: caught_def g)
  obtain ch s1 where ch: "stopChannels selecting ''t'' = Some ch"
    and a: "stopDevice_during selecting ''t'' [0] =
      Done s1 (Response StatusOK (Message ''Virtual device stopped successfully''))"
    and b: "goroutines s1 = goroutines selecting"
    and d: "ch \<in> closedChans s1"
    and e: "\<forall>t i. (rtranclp step s1 t \<or> rtranclp step s1 t) \<and>
              i < length (goroutines t) \<and> loc (goroutines t ! i) = Select (Some ch) \<longrightarrow>
              (\<exists>t'. loop_step t i Stopped = Some t' \<and> loc (goroutines t' ! i) = Returned)"
    using C2_stop_delete_do_not_wait [OF reachable_selecting v r q] by blast
  have ch0: "ch = 0" using ch c by simp
  have "rtranclp step s1 s1 \<and> 0 < length (goroutines s1) \<and>
        loc (goroutines s1 ! 0) = Select (Some ch)"
    by (simp add: b g ch0)
  then have "\<exists>t'. loop_step s1 0 Stopped = Some t' \<and> loc (goroutines t' ! 0) = Returned"
    using e by blast
  then show ?thesis using reachable_selecting v r q c g a b d ch0 by auto
qed

text \<open>
  C3, as stated, fails: for a temperature device and \<open>rand.Float64() = 4095/4096\<close>
  (a float64 below 1) the reading's value is the string \<open>35.00\<close>, which is not
  below 35. At the largest float64 below 1 the float64 sum itself, before it is
  formatted, is 35.
\<close>
theorem C3_counterexample:
  "(0::rat) \<le> 4095 / 4096 \<and> (4095 / 4096 :: rat) < 1 \<and>
   float64 (4095 / 4096) = 4095 / 4096 \<and>
   Value (generateReading
     (defaultDevice ''t'' ''T1'' ''test'' ''TemperatureSensorProfile'' ''temperature'')
     \<lparr>rand_Float64 = 4095 / 4096, uuid = ''r1'', origin_ms = 0, created_ms = 0,
      modified_ms = 0, now = 0\<rparr>) = ''35.00'' \<and>
   fixed_value ''35.00'' = 35 \<and> \<not> fixed_value ''35.00'' < 35 \<and>
   fadd 20 (fmul (9007199254740991 / 9007199254740992) 15) = 35"
proof -
  have "(4095 / 4096 :: rat) * 15 = 61425 / 4096" by simp
  then have m: "fmul (4095 / 4096) 15 = 61425 / 4096"
    unfolding fmul_def by (simp only: exact_a)
  have "(20 :: rat) + 61425 / 4096 = 143345 / 4096" by simp
  then have "fadd 20 (fmul (4095 / 4096) 15) = 143345 / 4096"
    unfolding fadd_def m by (simp only: exact_b)
  then have v: "Sprintf_2f (fadd 20 (fmul (4095 / 4096) 15)) = ''35.00''"
    by (simp only: fmt_b)
  show ?thesis
    using v fx exact_r float64_sum_reaches_upper_end
    by (simp add: generateReading_Value)
qed

text \<open>
  C3, amended. For every result of \<open>rand.Float64()\<close> in \<open>[0, 1)\<close> the reading carries
  the unit of its kind, its value is a string with two decimals, and the number that
  string denotes lies between the documented bounds with both ends included:
  \<open>[20, 35]\<close> Celsius, \<open>[30, 70]\<close> Percent, \<open>[1013, 1033]\<close> hPa, and
  \<open>[0, 100]\<close> Units for any other kind. The generator is a total function.
\<close>
theorem C3_reading_in_closed_range:
  assumes "0 \<le> rand_Float64 env" and "rand_Float64 env < 1"
  shows "two_decimals (Value (generateReading d env)) \<and>
    (if deviceType d = ''temperature'' then
       Units (generateReading d env) = ''Celsius'' \<and>
       20 \<le> fixed_value (Value (generateReading d env)) \<and>
       fixed_value (Value (generateReading d env)) \<le> 35
     else if deviceType d = ''humidity'' then
       Units (generateReading d env) = ''Percent'' \<and>
       30 \<le> fixed_value (Value (generateReading d env)) \<and>
       fixed_value (Value (generateReading d env)) \<le> 70
     else if deviceType d = ''pressure'' then
       Units (generateReading d env) = ''hPa'' \<and>
       1013 \<le> fixed_value (Value (generateReading d env)) \<and>
       fixed_value (Value (generateReading d env)) \<le> 1033
     else
       Units (generateReading d env) = ''Units'' \<and>
       0 \<le> fixed_value (Value (generateReading d env)) \<and>
       fixed_value (Value (generateReading d env)) \<le> 100)"
proof -
  let ?r = "rand_Float64 env"
  have t: "of_int 20 \<le> fadd (of_int 20) (fmul ?r (of_int 15)) \<and>
           fadd (of_int 20) (fmul ?r (of_int 15)) \<le> of_int (20 + 15)"
    by (rule scaled_range [OF assms]) simp_all
  have h: "of_int 30 \<le> fadd (of_int 30) (fmul ?r (of_int 40)) \<and>
           fadd (of_int 30) (fmul ?r (of_int 40)) \<le> of_int (30 + 40)"
    by (rule scaled_range [OF assms]) simp_all
  have p: "of_int 1013 \<le> fadd (of_int 1013) (fmul ?r (of_int 20)) \<and>
           fadd (of_int 1013) (fmul ?r (of_int 20)) \<le> of_int (1013 + 20)"
    by (rule scaled_range [OF assms]) simp_all
  have g: "of_int 0 \<le> fmul ?r (of_int 100) \<and> fmul ?r (of_int 100) \<le> of_int 100"
    using fmul_range [OF assms, of 100] by simp
  have T: "two_decimals (Sprintf_2f (fadd 20 (fmul ?r 15))) \<and>
           20 \<le> fixed_value (Sprintf_2f (fadd 20 (fmul ?r 15))) \<and>
           fixed_value (Sprintf_2f (fadd 20 (fmul ?r 15))) \<le> 35"
    using Sprintf_2f_range [of 20 "fadd 20 (fmul ?r 15)" 35] t by simp
  have H: "two_decimals (Sprintf_2f (fadd 30 (fmul ?r 40))) \<and>
           30 \<le> fixed_value (Sprintf_2f (fadd 30 (fmul ?r 40))) \<and>
           fixed_value (Sprintf_2f (fadd 30 (fmul ?r 40))) \<le> 70"
    using Sprintf_2f_range [of 30 "fadd 30 (fmul ?r 40)" 70] h by simp
  have P: "two_decimals (Sprintf_2f (fadd 1013 (fmul ?r 20))) \<and>
           1013 \<le> fixed_value (Sprintf_2f (fadd 1013 (fmul ?r 20))) \<and>
           fixed_value (Sprintf_2f (fadd 1013 (fmul ?r 20))) \<le> 1033"
    using Sprintf_2f_range [of 1013 "fadd 1013 (fmul ?r 20)" 1033] p by simp
  have G: "two_decimals (Sprintf_2f (fmul ?r 100)) \<and>
           0 \<le> fixed_value (Sprintf_2f (fmul ?r 100)) \<and>
           fixed_value (Sprintf_2f (fmul ?r 100)) \<le> 100"
    using Sprintf_2f_range [of 0 "fmul ?r 100" 100] g by simp
  show ?thesis
    using T H P G by (simp add: generateReading_Value generateReading_Units)
qed

theorem C3_witness:
  "(0::rat) \<le> 1 / 2 \<and> (1 / 2 :: rat) < 1 \<and>
   Value (generateReading
     (defaultDevice ''h'' ''H1'' ''test'' ''HumiditySensorProfile'' ''humidity'')
     \<lparr>rand_Float64 = 1 / 2, uuid = ''r1'', origin_ms = 0, created_ms = 0,
      modified_ms = 0, now = 0\<rparr>) = ''50.00'' \<and>
   two_decimals ''50.00'' \<and>
   Units (generateReading
     (defaultDevice ''h'' ''H1'' ''test'' ''HumiditySensorProfile'' ''humidity'')
     \<lparr>rand_Float64 = 1 / 2, uuid = ''r1'', origin_ms = 0, created_ms = 0,
      modified_ms = 0, now = 0\<rparr>) = ''Percent'' \<and>
   30 \<le> fixed_value ''50.00'' \<and> fixed_value ''50.00'' \<le> 70"
proof -
  let ?d = "defaultDevice ''h'' ''H1'' ''test'' ''HumiditySensorProfile'' ''humidity''"
  let ?e = "\<lparr>rand_Float64 = 1 / 2, uuid = ''r1'', origin_ms = 0, created_ms = 0,
      modified_ms = 0, now = (0::int)\<rparr>"
  have a: "0 \<le> rand_Float64 ?e" and b: "rand_Float64 ?e < 1" by simp_all
  have f20: "float64 20 = 20" using float64_int [of 20] by simp
  have f50: "float64 50 = 50" using float64_int [of 50] by simp
  have "(1 / 2 :: rat) * 40 = 20" by simp
  then have m: "fmul (1 / 2) 40 = 20" unfolding fmul_def by (simp only: f20)
  have "(30 :: rat) + 20 = 50" by simp
  then have "fadd 30 (fmul (1 / 2) 40) = 50" unfolding fadd_def m by (simp only: f50)
  then have "Sprintf_2f (fadd 30 (fmul (1 / 2) 40)) = ''50.00''" by (simp only: fmt_c)
  then have v: "Value (generateReading ?d ?e) = ''50.00''"
    by (simp add: generateReading_Value)
  show ?thesis
    using C3_reading_in_closed_range [OF a b, of ?d] v by simp
qed

text \<open>
  C4. Whatever the decoded descriptor holds, create stores it under the generated id
  with that id in place of the descriptor's, with \<open>IsRunning\<close> false, and with
  \<open>UNLOCKED\<close> and \<open>UP\<close> where the descriptor leaves the admin or the operating
  state empty (the service name is overwritten too).
\<close>
theorem C4_create_defaults:
  "snd (createVirtualDevice s (Some d) u) = Response StatusCreated (CreatedId u) \<and>
   (\<exists>p. virtualDevices (fst (createVirtualDevice s (Some d) u)) u = Some p \<and>
        heap (fst (createVirtualDevice s (Some d) u)) p =
          d\<lparr>Id' := u, ServiceName := ''device-virtual'',
            AdminState := (if AdminState d = [] then ''UNLOCKED'' else AdminState d),
            OperatingState := (if OperatingState d = [] then ''UP'' else OperatingState d),
            IsRunning := False\<rparr> \<and>
        \<not> IsRunning (heap (fst (createVirtualDevice s (Some d) u)) p) \<and>
        Id' (heap (fst (createVirtualDevice s (Some d) u)) p) = u)"
  by (simp add: createVirtualDevice_def Let_def DeviceVirtualServiceKey_def Unlocked_def Up_def)

text \<open>
  C5, as stated, fails: a descriptor with every field empty, the name included (the
  body \<open>{}\<close>), is accepted with 201 and stored.
\<close>
theorem C5_counterexample:
  "snd (createVirtualDevice (NewDeviceVirtualService ''t'' ''h'' ''p'') (Some zeroDevice) ''u'') =
     Response StatusCreated (CreatedId ''u'') \<and>
   Name zeroDevice = [] \<and>
   virtualDevices (fst (createVirtualDevice (NewDeviceVirtualService ''t'' ''h'' ''p'')
     (Some zeroDevice) ''u'')) ''u'' = Some 3 \<and>
   virtualDevices (NewDeviceVirtualService ''t'' ''h'' ''p'') ''u'' = None"
  by (simp add: createVirtualDevice_def Let_def zeroDevice_def NewDeviceVirtualService_def
      initializeDefaultDevices_def defaultDevice_def emptyService_def)

text \<open>
  C5, amended. create fails, with 400 and the state unchanged, exactly when the body
  does not decode; every decoded descriptor, whatever fields it leaves empty, is
  stored and answered with 201.
\<close>
theorem C5_create_fails_only_on_decode_error:
  "createVirtualDevice s None u = (s, Response StatusBadRequest (ErrorText ''Invalid JSON'')) \<and>
   snd (createVirtualDevice s (Some d) u) = Response StatusCreated (CreatedId u) \<and>
   virtualDevices (fst (createVirtualDevice s (Some d) u)) u = Some (nextPtr s) \<and>
   Name (heap (fst (createVirtualDevice s (Some d) u)) (nextPtr s)) = Name d"
  by (simp add: createVirtualDevice_def Let_def)

text \<open>
  C6. For an id that the registry does not hold, get, update (with a descriptor that
  decodes), delete, start and stop answer 404 and leave the whole state as it was.
\<close>
theorem C6_not_found:
  assumes "virtualDevices s id' = None"
  shows "getVirtualDevice s id' =
           (s, Response StatusNotFound (ErrorText ''Virtual device not found'')) \<and>
         updateVirtualDevice s id' (Some d) =
           (s, Response StatusNotFound (ErrorText ''Virtual device not found'')) \<and>
         deleteVirtualDevice s id' =
           (s, Response StatusNotFound (ErrorText ''Virtual device not found'')) \<and>
         startDevice s id' =
           (s, Response StatusNotFound (ErrorText ''Virtual device not found'')) \<and>
         stopDevice s id' =
           (s, Response StatusNotFound (ErrorText ''Virtual device not found''))"
  using assms
  by (simp add: getVirtualDevice_def updateVirtualDevice_def deleteVirtualDevice_def
      startDevice_def stopDevice_def)

theorem C6_witness:
  "virtualDevices (NewDeviceVirtualService ''t'' ''h'' ''p'') ''nonexistent-id'' = None \<and>
   getVirtualDevice (NewDeviceVirtualService ''t'' ''h'' ''p'') ''nonexistent-id'' =
     (NewDeviceVirtualService ''t'' ''h'' ''p'',
      Response StatusNotFound (ErrorText ''Virtual device not found'')) \<and>
   updateVirtualDevice (NewDeviceVirtualService ''t'' ''h'' ''p'') ''nonexistent-id'' (Some zeroDevice) =
     (NewDeviceVirtualService ''t'' ''h'' ''p'',
      Response StatusNotFound (ErrorText ''Virtual device not found'')) \<and>
   deleteVirtualDevice (NewDeviceVirtualService ''t'' ''h'' ''p'') ''nonexistent-id'' =
     (NewDeviceVirtualService ''t'' ''h'' ''p'',
      Response StatusNotFound (ErrorText ''Virtual device not found'')) \<and>
   startDevice (NewDeviceVirtualService ''t'' ''h'' ''p'') ''nonexistent-id'' =
     (NewDeviceVirtualService ''t'' ''h'' ''p'',
      Response StatusNotFound (ErrorText ''Virtual device not found'')) \<and>
   stopDevice (NewDeviceVirtualService ''t'' ''h'' ''p'') ''nonexistent-id'' =
     (NewDeviceVirtualService ''t'' ''h'' ''p'',
      Response StatusNotFound (ErrorText ''Virtual device not found''))"
proof -
  have a: "virtualDevices (NewDeviceVirtualService ''t'' ''h'' ''p'') ''nonexistent-id'' = None"
    by (simp add: new_registry)
  show ?thesis using a C6_not_found [OF a, of zeroDevice] by simp
qed

text \<open>
  C7 fails on the code. Start on a running device and stop on a stopped device do
  leave the state as it is and answer 200, but the loops are not one and zero. In the
  run \<open>doubled\<close> the device is running with two loops that have not returned, and the
  repeated start leaves both; in the run \<open>deaf\<close> the device is stopped with one loop
  that has not returned and cannot take the stop case, and the repeated stop leaves
  it.
\<close>
theorem C7_noop_start_keeps_two_loops:
  "reachable doubled \<and>
   virtualDevices doubled ''t'' = Some 0 \<and> IsRunning (heap doubled 0) \<and>
   startDevice doubled ''t'' =
     (doubled, Response StatusOK (Message ''Virtual device started successfully'')) \<and>
   startDevice_during doubled ''t'' [0, 1] =
     Done doubled (Response StatusOK (Message ''Virtual device started successfully'')) \<and>
   live_loops doubled ''t'' = 2 \<and>
   reachable deaf \<and>
   virtualDevices deaf ''t'' = Some 0 \<and> \<not> IsRunning (heap deaf 0) \<and>
   stopDevice deaf ''t'' =
     (deaf, Response StatusOK (Message ''Virtual device stopped successfully'')) \<and>
   stopDevice_during deaf ''t'' [0] =
     Done deaf (Response StatusOK (Message ''Virtual device stopped successfully'')) \<and>
   live_loops deaf ''t'' = 1 \<and>
   loop_step deaf 0 Stopped = None"
  using reachable_doubled reachable_deaf
  by (simp add: startDevice_def startDevice_during_def stopDevice_def stopDevice_during_def
      live_loops_def loop_step_def Let_def doubled_fields deaf_fields)

text \<open>
  C8. In a reachable state, update of an existing device answers 200 and stores a
  record with the old id and the old running flag, whatever the descriptor holds for
  these two, and with the descriptor's name, description, profile, admin state,
  operating state and protocols.
\<close>
theorem C8_update_preserves_id_and_running:
  assumes "reachable s" and "virtualDevices s id' = Some p"
  shows "snd (updateVirtualDevice s id' (Some d)) =
           Response StatusOK (Message ''Virtual device updated successfully'') \<and>
         (\<exists>q. virtualDevices (fst (updateVirtualDevice s id' (Some d))) id' = Some q \<and>
            Id' (heap (fst (updateVirtualDevice s id' (Some d))) q) = Id' (heap s p) \<and>
            IsRunning (heap (fst (updateVirtualDevice s id' (Some d))) q) = IsRunning (heap s p) \<and>
            Name (heap (fst (updateVirtualDevice s id' (Some d))) q) = Name d \<and>
            Description (heap (fst (updateVirtualDevice s id' (Some d))) q) = Description d \<and>
            ProfileName (heap (fst (updateVirtualDevice s id' (Some d))) q) = ProfileName d \<and>
            AdminState (heap (fst (updateVirtualDevice s id' (Some d))) q) = AdminState d \<and>
            OperatingState (heap (fst (updateVirtualDevice s id' (Some d))) q) = OperatingState d \<and>
            Protocols (heap (fst (updateVirtualDevice s id' (Some d))) q) = Protocols d)"
proof -
  have "Id' (heap s p) = id'"
    using reachable_inv [OF assms(1)] assms(2)
    unfolding service_inv_def registry_ok_def by simp
  then show ?thesis using assms(2) by (simp add: updateVirtualDevice_def)
qed

theorem C8_witness:
  "reachable (fst (startDevice (NewDeviceVirtualService ''t'' ''h'' ''p'') ''t'')) \<and>
   virtualDevices (fst (startDevice (NewDeviceVirtualService ''t'' ''h'' ''p'') ''t'')) ''t'' = Some 0 \<and>
   Id' (heap (fst (startDevice (NewDeviceVirtualService ''t'' ''h'' ''p'') ''t'')) 0) = ''t'' \<and>
   IsRunning (heap (fst (startDevice (NewDeviceVirtualService ''t'' ''h'' ''p'') ''t'')) 0) \<and>
   (\<exists>q. virtualDevices (fst (updateVirtualDevice
            (fst (startDevice (NewDeviceVirtualService ''t'' ''h'' ''p'') ''t'')) ''t''
            (Some (zeroDevice\<lparr>Id' := ''other'', Name := ''renamed''\<rparr>)))) ''t'' = Some q \<and>
        Id' (heap (fst (updateVirtualDevice
            (fst (startDevice (NewDeviceVirtualService ''t'' ''h'' ''p'') ''t'')) ''t''
            (Some (zeroDevice\<lparr>Id' := ''other'', Name := ''renamed''\<rparr>)))) q) = ''t'' \<and>
        IsRunning (heap (fst (updateVirtualDevice
            (fst (startDevice (NewDeviceVirtualService ''t'' ''h'' ''p'') ''t'')) ''t''
            (Some (zeroDevice\<lparr>Id' := ''other'', Name := ''renamed''\<rparr>)))) q) \<and>
        Name (heap (fst (updateVirtualDevice
            (fst (startDevice (NewDeviceVirtualService ''t'' ''h'' ''p'') ''t'')) ''t''
            (Some (zeroDevice\<lparr>Id' := ''other'', Name := ''renamed''\<rparr>)))) q) = ''renamed'')"
proof -
  let ?s = "fst (startDevice (NewDeviceVirtualService ''t'' ''h'' ''p'') ''t'')"
  have r: "reachable ?s" by (rule reachable.start [OF reachable.new])
  have t: "virtualDevices ?s ''t'' = Some 0"
    by (simp add: startDevice_def new_registry new_heap)
  have i: "Id' (heap ?s 0) = ''t''" and rt: "IsRunning (heap ?s 0)"
    by (simp_all add: startDevice_def new_registry new_heap)
  let ?d = "zeroDevice\<lparr>Id' := ''other'', Name := ''renamed''\<rparr>"
  let ?u = "fst (updateVirtualDevice ?s ''t'' (Some ?d))"
  obtain q where q: "virtualDevices ?u ''t'' = Some q"
    and qi: "Id' (heap ?u q) = Id' (heap ?s 0)"
    and qr: "IsRunning (heap ?u q) = IsRunning (heap ?s 0)"
    and qn: "Name (heap ?u q) = Name ?d"
    using C8_update_preserves_id_and_running [OF r t, of ?d] by blast
  have "Name ?d = ''renamed''" by simp
  then have "virtualDevices ?u ''t'' = Some q \<and> Id' (heap ?u q) = ''t'' \<and>
      IsRunning (heap ?u q) \<and> Name (heap ?u q) = ''renamed''"
    using q qi qr qn i rt by simp
  then show ?thesis using r t i rt by blast
qed

text \<open>
  C9. update stores the decoded descriptor with only \<open>Id\<close> and \<open>IsRunning\<close>
  replaced: every other field is the descriptor's. With the empty descriptor the last
  reading time, the service name and the protocols come out empty, so the kind
  selector \<open>protocols["type"]\<close> of the stored record is cleared while the running
  flag stays.
\<close>
theorem C9_update_overwrites_all_other_fields:
  assumes "virtualDevices s id' = Some p"
  shows "(\<exists>q. virtualDevices (fst (updateVirtualDevice s id' (Some d))) id' = Some q \<and>
            heap (fst (updateVirtualDevice s id' (Some d))) q =
              d\<lparr>Id' := id', IsRunning := IsRunning (heap s p)\<rparr>) \<and>
         (\<exists>q. virtualDevices (fst (updateVirtualDevice s id' (Some zeroDevice))) id' = Some q \<and>
            LastReading (heap (fst (updateVirtualDevice s id' (Some zeroDevice))) q) = 0 \<and>
            ServiceName (heap (fst (updateVirtualDevice s id' (Some zeroDevice))) q) = [] \<and>
            Protocols (heap (fst (updateVirtualDevice s id' (Some zeroDevice))) q) = Map.empty \<and>
            deviceType (heap (fst (updateVirtualDevice s id' (Some zeroDevice))) q) = [] \<and>
            IsRunning (heap (fst (updateVirtualDevice s id' (Some zeroDevice))) q) =
              IsRunning (heap s p))"
  using assms by (simp add: updateVirtualDevice_def zeroDevice_def deviceType_def)

theorem C9_witness:
  "virtualDevices (fst (startDevice (NewDeviceVirtualService ''t'' ''h'' ''p'') ''t'')) ''t'' = Some 0 \<and>
   IsRunning (heap (fst (startDevice (NewDeviceVirtualService ''t'' ''h'' ''p'') ''t'')) 0) \<and>
   deviceType (heap (fst (startDevice (NewDeviceVirtualService ''t'' ''h'' ''p'') ''t'')) 0) =
     ''temperature'' \<and>
   ServiceName (heap (fst (startDevice (NewDeviceVirtualService ''t'' ''h'' ''p'') ''t'')) 0) =
     ''device-virtual'' \<and>
   (\<exists>q. virtualDevices (fst (updateVirtualDevice
            (fst (startDevice (NewDeviceVirtualService ''t'' ''h'' ''p'') ''t'')) ''t''
            (Some zeroDevice))) ''t'' = Some q \<and>
        deviceType (heap (fst (updateVirtualDevice
            (fst (startDevice (NewDeviceVirtualService ''t'' ''h'' ''p'') ''t'')) ''t''
            (Some zeroDevice))) q) = [] \<and>
        ServiceName (heap (fst (updateVirtualDevice
            (fst (startDevice (NewDeviceVirtualService ''t'' ''h'' ''p'') ''t'')) ''t''
            (Some zeroDevice))) q) = [] \<and>
        IsRunning (heap (fst (updateVirtualDevice
            (fst (startDevice (NewDeviceVirtualService ''t'' ''h'' ''p'') ''t'')) ''t''
            (Some zeroDevice))) q))"
proof -
  let ?s = "fst (startDevice (NewDeviceVirtualService ''t'' ''h'' ''p'') ''t'')"
  have t: "virtualDevices ?s ''t'' = Some 0"
    by (simp add: startDevice_def new_registry new_heap)
  have rt: "IsRunning (heap ?s 0)" and k: "deviceType (heap ?s 0) = ''temperature''"
    and sn: "ServiceName (heap ?s 0) = ''device-virtual''"
    by (simp_all add: startDevice_def new_registry new_heap deviceType_def defaultDevice_def
        DeviceVirtualServiceKey_def)
  let ?u = "fst (updateVirtualDevice ?s ''t'' (Some zeroDevice))"
  obtain q where q: "virtualDevices ?u ''t'' = Some q"
    and qk: "deviceType (heap ?u q) = []"
    and qs: "ServiceName (heap ?u q) = []"
    and qr: "IsRunning (heap ?u q) = IsRunning (heap ?s 0)"
    using C9_update_overwrites_all_other_fields [OF t, of zeroDevice] by blast
  then have "virtualDevices ?u ''t'' = Some q \<and> deviceType (heap ?u q) = [] \<and>
      ServiceName (heap ?u q) = [] \<and> IsRunning (heap ?u q)"
    using rt by simp
  then show ?thesis using t rt k sn by blast
qed

text \<open>
  C10 fails on the code. The constructor does fill the registry with the three
  devices, none running, but \<open>Initialize\<close> need not return: while it writes the stop
  channel of the second device, the loop it has just started for the first one reads
  the map with no lock, and when the runtime catches that read the process ends with
  \<open>fatal error: concurrent map read and map write\<close>.
\<close>
theorem C10_bootstrap_can_abort:
  "distinct [''t'', ''h'', ''p''] \<and>
   set [''t'', ''h'', ''p''] = dom (virtualDevices (NewDeviceVirtualService ''t'' ''h'' ''p'')) \<and>
   Initialize_during (NewDeviceVirtualService ''t'' ''h'' ''p'') [''t'', ''h'', ''p'']
     first_loop_reads = Fatal ''fatal error: concurrent map read and map write''"
proof -
  have "set [''t'', ''h'', ''p''] = dom (virtualDevices (NewDeviceVirtualService ''t'' ''h'' ''p''))"
    by (auto simp: new_registry)
  moreover have "Initialize_during (NewDeviceVirtualService ''t'' ''h'' ''p'') [''t'', ''h'', ''p'']
     first_loop_reads = Fatal ''fatal error: concurrent map read and map write''"
    using new_goroutine_heads
    by (simp add: Initialize_during_def first_loop_reads_def new_registry new_heap
        caught_def new_rest map_fault_def)
  ultimately show ?thesis by simp
qed

end
